theory Spec2Isabelle
  imports Main "HOL-Library.Word" "HOL-Library.AList"
begin

unbundle bit_operations_syntax

section \<open>The log-level filter of libs/log/filter.go\<close>

subsection \<open>Levels\<close>

text \<open>
  \<^verbatim>\<open>type level byte\<close> with \<^verbatim>\<open>levelDebug level = 1 << iota\<close>, \<^verbatim>\<open>levelInfo\<close>,
  \<^verbatim>\<open>levelError\<close>: one bit each, in a byte.
\<close>

type_synonym level = "8 word"

definition levelDebug :: level where
  "levelDebug = push_bit 0 1"

definition levelInfo :: level where
  "levelInfo = push_bit 1 1"

definition levelError :: level where
  "levelError = push_bit 2 1"

definition keyvalsSplit :: char where
  "keyvalsSplit = CHR ''&''"

subsection \<open>The string functions the filter calls\<close>

text \<open>
  \<^verbatim>\<open>strings.Trim(s, cutset)\<close> removes every leading and trailing byte that occurs in
  the cut set.
\<close>

definition Trim :: "string \<Rightarrow> string \<Rightarrow> string" where
  "Trim s cutset =
     rev (dropWhile (\<lambda>c. c \<in> set cutset) (rev (dropWhile (\<lambda>c. c \<in> set cutset) s)))"

text \<open>
  \<^verbatim>\<open>strings.Split(s, sep)\<close>, for the one-byte separators the filter passes
  (\<^verbatim>\<open>"&"\<close>, \<^verbatim>\<open>","\<close> and \<^verbatim>\<open>":"\<close>): the pieces between the separators, one more
  than there are separators, so the split of the empty string is one empty piece.
\<close>

fun Split :: "string \<Rightarrow> char \<Rightarrow> string list" where
  "Split [] sep = [[]]"
| "Split (c # cs) sep =
     (if c = sep then [] # Split cs sep
      else (case Split cs sep of [] \<Rightarrow> [[c]] | p # ps \<Rightarrow> (c # p) # ps))"

definition Contains :: "string \<Rightarrow> char \<Rightarrow> bool" where
  "Contains s c = (c \<in> set s)"

subsection \<open>Data\<close>

text \<open>
  A value of type \<^verbatim>\<open>interface{}\<close>: a string, or a value of some other comparable
  type (numbers stand for those). Go's \<^verbatim>\<open>==\<close> on two such values is equality of the
  dynamic type and of the value, which is the equality of this datatype.
\<close>

datatype iface = Str string | Num int

datatype keyval = Keyval (key: iface) (val: iface)

text \<open>
  \<^verbatim>\<open>allowedKeyvalMap.data\<close> is a Go map. It is an association list here, and a
  \<^verbatim>\<open>range\<close> over it visits the entries in the list's order; the theorems hold
  for every list, hence for every order of iteration.
\<close>

type_synonym allowedKeyvalMap = "(keyval \<times> level) list"

text \<open>
  The decorated backend is outside the filter. All the filter does with it is
  qualify it (\<^verbatim>\<open>next.With(keyvals...)\<close>) and forward events to it, so a backend
  logger is the attributes it has been qualified with.
\<close>

datatype backend = Backend (attrs: "iface list")

definition backend_With :: "backend \<Rightarrow> iface list \<Rightarrow> backend" where
  "backend_With b keyvals = Backend (attrs b @ keyvals)"

datatype call = CallDebug | CallInfo | CallError

type_synonym event = "backend \<times> call \<times> string \<times> iface list"

text \<open>
  \<^verbatim>\<open>type filter struct\<close>. The field \<^verbatim>\<open>allowedKV\<close> is a pointer to a table object:
  an address in the heap of tables, or nil.
\<close>

record filter =
  next_logger :: backend
  allowed :: level
  initiallyAllowed :: level
  allowedKV :: "nat option"

text \<open>
  A \<^verbatim>\<open>Logger\<close> value held in the cache or returned by \<^verbatim>\<open>With\<close>: a pointer to a
  filter object, or a logger of some other type.
\<close>

datatype Logger = FilterPtr nat | OtherLogger backend

text \<open>
  The objects the package shares: the heap of tables and of filter nodes (an
  address is an index, allocation appends), the singleton \<^verbatim>\<open>cacheLoggers\<close> with
  its two fields (\<^verbatim>\<open>allowedKV\<close> is nil until \<^verbatim>\<open>NewFilter\<close> has run), and the
  events the backend has received.
\<close>

record state =
  tables :: "allowedKeyvalMap list"
  filters :: "filter list"
  cl_allowedKV :: "nat option"
  loggersMap :: "(string \<times> Logger) list"
  backend_events :: "event list"

definition init_state :: state where
  "init_state = \<lparr>tables = [], filters = [], cl_allowedKV = None, loggersMap = [],
     backend_events = []\<rparr>"

text \<open>Dereferencing a table pointer; nil (or an address never allocated) panics.\<close>

definition deref_table :: "state \<Rightarrow> nat option \<Rightarrow> allowedKeyvalMap option" where
  "deref_table st p =
     (case p of None \<Rightarrow> None
      | Some a \<Rightarrow> if a < length (tables st) then Some (tables st ! a) else None)"

definition alloc_filter :: "state \<Rightarrow> filter \<Rightarrow> nat \<times> state" where
  "alloc_filter st f = (length (filters st), st\<lparr>filters := filters st @ [f]\<rparr>)"

subsection \<open>allowedKeyvalMap\<close>

definition set_kv :: "allowedKeyvalMap \<Rightarrow> iface \<Rightarrow> iface \<Rightarrow> level \<Rightarrow> allowedKeyvalMap" where
  "set_kv data k v lv = AList.update (Keyval k v) lv data"

text \<open>
  \<^verbatim>\<open>traverse\<close> calls \<^verbatim>\<open>f\<close> on the entries until one call returns true. The
  callbacks of this file assign to variables they capture; \<open>'s\<close> is the value of
  those variables, threaded through the calls.
\<close>

fun traverse ::
  "(keyval \<Rightarrow> level \<Rightarrow> 's \<Rightarrow> (bool \<times> 'r option) \<times> 's) \<Rightarrow> allowedKeyvalMap \<Rightarrow> 's
     \<Rightarrow> (bool \<times> 'r option) \<times> 's" where
  "traverse f [] s = ((False, None), s)"
| "traverse f ((kv, lv) # rest) s =
     (case f kv lv s of
        ((re, r), s') \<Rightarrow> if re then ((re, r), s') else traverse f rest s')"

subsection \<open>CacheLoggers.get and CacheLoggers.set\<close>

definition cache_get :: "state \<Rightarrow> string \<Rightarrow> Logger option" where
  "cache_get st k = map_of (loggersMap st) k"

definition cache_set :: "state \<Rightarrow> string \<Rightarrow> Logger \<Rightarrow> state" where
  "cache_set st k logger = st\<lparr>loggersMap := AList.update k logger (loggersMap st)\<rparr>"

subsection \<open>Options\<close>

text \<open>
  An \<^verbatim>\<open>Option\<close> is a closure over a filter pointer. The file builds two kinds:
  \<^verbatim>\<open>allowed(lv)\<close> assigns the filter's \<^verbatim>\<open>allowed\<close>, and the \<^verbatim>\<open>Allow*With\<close>
  closures call \<^verbatim>\<open>l.allowedKV.set(key, value, lv)\<close>.
\<close>

datatype Option = allowed_option level | allowedWith_option iface iface level

definition AllowDebug :: Option where
  "AllowDebug = allowed_option (levelError OR levelInfo OR levelDebug)"

definition AllowInfo :: Option where
  "AllowInfo = allowed_option (levelError OR levelInfo)"

definition AllowError :: Option where
  "AllowError = allowed_option levelError"

definition AllowNone :: Option where
  "AllowNone = allowed_option 0"

definition AllowAll :: Option where
  "AllowAll = AllowDebug"

definition AllowDebugWith :: "iface \<Rightarrow> iface \<Rightarrow> Option" where
  "AllowDebugWith k v = allowedWith_option k v (levelError OR levelInfo OR levelDebug)"

definition AllowInfoWith :: "iface \<Rightarrow> iface \<Rightarrow> Option" where
  "AllowInfoWith k v = allowedWith_option k v (levelError OR levelInfo)"

definition AllowErrorWith :: "iface \<Rightarrow> iface \<Rightarrow> Option" where
  "AllowErrorWith k v = allowedWith_option k v levelError"

definition AllowNoneWith :: "iface \<Rightarrow> iface \<Rightarrow> Option" where
  "AllowNoneWith k v = allowedWith_option k v 0"

text \<open>
  Calling an option on a filter: the filter's new value and the new state, or
  \<open>None\<close> for the panic of \<^verbatim>\<open>set\<close> on a nil table pointer.
\<close>

fun apply_option :: "Option \<Rightarrow> filter \<Rightarrow> state \<Rightarrow> (filter \<times> state) option" where
  "apply_option (allowed_option lv) l st = Some (l\<lparr>allowed := lv\<rparr>, st)"
| "apply_option (allowedWith_option k v lv) l st =
     (case allowedKV l of
        None \<Rightarrow> None
      | Some a \<Rightarrow>
          if a < length (tables st)
          then Some (l, st\<lparr>tables := (tables st)[a := set_kv (tables st ! a) k v lv]\<rparr>)
          else None)"

datatype error =
    ErrEmptyLogLevel
  | ErrExpectedLevel string
  | ErrExpectedPairs string "string list"
  | ErrExpectedLogLevel string string "string list"

definition AllowLevel :: "string \<Rightarrow> error + Option" where
  "AllowLevel lvl =
     (if lvl = ''debug'' then Inr AllowDebug
      else if lvl = ''info'' then Inr AllowInfo
      else if lvl = ''error'' then Inr AllowError
      else if lvl = ''none'' then Inr AllowNone
      else Inl (ErrExpectedLevel lvl))"

subsection \<open>NewFilter\<close>

text \<open>The loop \<^verbatim>\<open>for _, option := range options { option(l) }\<close>.\<close>

fun apply_options :: "Option list \<Rightarrow> filter \<Rightarrow> state \<Rightarrow> (filter \<times> state) option" where
  "apply_options [] l st = Some (l, st)"
| "apply_options (opt # opts) l st =
     (case apply_option opt l st of
        None \<Rightarrow> None
      | Some (l', st') \<Rightarrow> apply_options opts l' st')"

definition NewFilter :: "state \<Rightarrow> backend \<Rightarrow> Option list \<Rightarrow> (Logger \<times> state) option" where
  "NewFilter st nxt opts =
     (let a = length (tables st);
          st1 = st\<lparr>tables := tables st @ [[(Keyval (Str ''module'') (Str ''''), levelError)]],
                   cl_allowedKV := Some a\<rparr>;
          l = \<lparr>next_logger = nxt, allowed = 0, initiallyAllowed = 0, allowedKV = Some a\<rparr>
      in case apply_options opts l st1 of
           None \<Rightarrow> None
         | Some (l', st2) \<Rightarrow>
             (case alloc_filter st2 (l'\<lparr>initiallyAllowed := allowed l'\<rparr>) of
                (p, st3) \<Rightarrow> Some (FilterPtr p, st3)))"

subsection \<open>Debug, Info, Error\<close>

definition Info :: "state \<Rightarrow> nat \<Rightarrow> string \<Rightarrow> iface list \<Rightarrow> state option" where
  "Info st p msg keyvals =
     (if p < length (filters st)
      then (let l = filters st ! p;
                levelAllowed = (allowed l AND levelInfo \<noteq> 0)
            in if \<not> levelAllowed then Some st
               else Some (st\<lparr>backend_events :=
                      backend_events st @ [(next_logger l, CallInfo, msg, keyvals)]\<rparr>))
      else None)"

definition Debug :: "state \<Rightarrow> nat \<Rightarrow> string \<Rightarrow> iface list \<Rightarrow> state option" where
  "Debug st p msg keyvals =
     (if p < length (filters st)
      then (let l = filters st ! p;
                levelAllowed = (allowed l AND levelDebug \<noteq> 0)
            in if \<not> levelAllowed then Some st
               else Some (st\<lparr>backend_events :=
                      backend_events st @ [(next_logger l, CallDebug, msg, keyvals)]\<rparr>))
      else None)"

definition Error :: "state \<Rightarrow> nat \<Rightarrow> string \<Rightarrow> iface list \<Rightarrow> state option" where
  "Error st p msg keyvals =
     (if p < length (filters st)
      then (let l = filters st ! p;
                levelAllowed = (allowed l AND levelError \<noteq> 0)
            in if \<not> levelAllowed then Some st
               else Some (st\<lparr>backend_events :=
                      backend_events st @ [(next_logger l, CallError, msg, keyvals)]\<rparr>))
      else None)"

subsection \<open>With\<close>

text \<open>
  The first loop of \<^verbatim>\<open>With\<close>: the keyvals' strings, each followed by the
  separator, or \<open>None\<close> at the first keyval that is not a string.
\<close>

fun build_keyvalsStr :: "iface list \<Rightarrow> string \<Rightarrow> string option" where
  "build_keyvalsStr [] acc = Some acc"
| "build_keyvalsStr (Str s # kvs) acc = build_keyvalsStr kvs (acc @ s @ [keyvalsSplit])"
| "build_keyvalsStr (Num n # kvs) acc = None"

text \<open>
  The callback \<^verbatim>\<open>traverseFunc\<close> of \<^verbatim>\<open>With\<close> at index \<open>i\<close>. The captured
  variable is \<^verbatim>\<open>keyInallowedKeyvalMap\<close>.
\<close>

definition With_traverseFunc ::
  "filter \<Rightarrow> iface list \<Rightarrow> nat \<Rightarrow> keyval \<Rightarrow> level \<Rightarrow> bool \<Rightarrow> (bool \<times> filter option) \<times> bool" where
  "With_traverseFunc l keyvals i kv lv keyInallowedKeyvalMap =
     (if keyvals ! i = key kv
      then (if keyvals ! (i + 1) = val kv
            then ((True, Some \<lparr>next_logger = backend_With (next_logger l) keyvals,
                               allowed = lv,
                               initiallyAllowed = initiallyAllowed l,
                               allowedKV = allowedKV l\<rparr>), True)
            else ((False, None), True))
      else ((False, None), keyInallowedKeyvalMap))"

text \<open>
  The loop \<^verbatim>\<open>for i := len(keyvals) - 2; i >= 0; i -= 2\<close>. Its result is the
  filter of the iteration that returned, if one did, and the final value of
  \<^verbatim>\<open>keyInallowedKeyvalMap\<close>; \<open>None\<close> is the panic of \<^verbatim>\<open>traverse\<close> on a nil table.
\<close>

function With_loop ::
  "allowedKeyvalMap option \<Rightarrow> filter \<Rightarrow> iface list \<Rightarrow> int \<Rightarrow> bool
     \<Rightarrow> (filter option \<times> bool) option" where
  "With_loop data l keyvals i keyInallowedKeyvalMap =
     (if 0 \<le> i
      then (case data of
              None \<Rightarrow> None
            | Some d \<Rightarrow>
                (case traverse (With_traverseFunc l keyvals (nat i)) d keyInallowedKeyvalMap of
                   ((re, f), flag) \<Rightarrow>
                     if re then Some (f, flag) else With_loop data l keyvals (i - 2) flag))
      else Some (None, keyInallowedKeyvalMap))"
  by pat_completeness auto
termination
  by (relation "measure (\<lambda>(data, l, keyvals, i, flag). nat (i + 2))") auto

declare With_loop.simps [simp del]

definition With :: "state \<Rightarrow> nat \<Rightarrow> iface list \<Rightarrow> (Logger \<times> state) option" where
  "With st p keyvals =
     (if p < length (filters st)
      then
        (let l = filters st ! p in
         case build_keyvalsStr keyvals [] of
           None \<Rightarrow>
             (case alloc_filter st \<lparr>next_logger = backend_With (next_logger l) keyvals,
                                    allowed = allowed l,
                                    initiallyAllowed = initiallyAllowed l,
                                    allowedKV = allowedKV l\<rparr> of
                (q, st') \<Rightarrow> Some (FilterPtr q, st'))
         | Some s \<Rightarrow>
             (let keyvalsStr = Trim s [keyvalsSplit] in
              case cache_get st keyvalsStr of
                Some log \<Rightarrow> Some (log, st)
              | None \<Rightarrow>
                  (case With_loop (deref_table st (allowedKV l)) l keyvals
                          (int (length keyvals) - 2) False of
                     None \<Rightarrow> None
                   | Some (Some f, flag) \<Rightarrow>
                       (case alloc_filter st f of
                          (q, st') \<Rightarrow> Some (FilterPtr q, cache_set st' keyvalsStr (FilterPtr q)))
                   | Some (None, flag) \<Rightarrow>
                       if flag
                       then (case alloc_filter st
                                    \<lparr>next_logger = backend_With (next_logger l) keyvals,
                                     allowed = initiallyAllowed l,
                                     initiallyAllowed = initiallyAllowed l,
                                     allowedKV = allowedKV l\<rparr> of
                               (q, st') \<Rightarrow>
                                 Some (FilterPtr q, cache_set st' keyvalsStr (FilterPtr q)))
                       else (case alloc_filter st
                                    \<lparr>next_logger = backend_With (next_logger l) keyvals,
                                     allowed = allowed l,
                                     initiallyAllowed = initiallyAllowed l,
                                     allowedKV = allowedKV l\<rparr> of
                               (q, st') \<Rightarrow> Some (FilterPtr q, st')))))
      else None)"

subsection \<open>UpdateWith\<close>

text \<open>
  The callback of \<^verbatim>\<open>UpdateWith\<close> at index \<open>i\<close>. It captures
  \<^verbatim>\<open>keyInallowedKeyvalMap\<close> and assigns \<^verbatim>\<open>l.allowed\<close>; it always returns a nil
  filter.
\<close>

definition UpdateWith_traverseFunc ::
  "string list \<Rightarrow> nat \<Rightarrow> keyval \<Rightarrow> level \<Rightarrow> bool \<times> filter
     \<Rightarrow> (bool \<times> filter option) \<times> (bool \<times> filter)" where
  "UpdateWith_traverseFunc keyvals i kv lv s =
     (case s of (keyInallowedKeyvalMap, l) \<Rightarrow>
        if Str (keyvals ! i) \<noteq> key kv then ((False, None), (keyInallowedKeyvalMap, l))
        else if Str (keyvals ! (i + 1)) \<noteq> val kv then ((False, None), (True, l))
        else ((True, None), (True, l\<lparr>allowed := lv\<rparr>)))"

text \<open>
  The loop of \<^verbatim>\<open>UpdateWith\<close>: whether an iteration returned, and the captured
  variables at that point.
\<close>

function UpdateWith_loop ::
  "allowedKeyvalMap option \<Rightarrow> string list \<Rightarrow> int \<Rightarrow> bool \<times> filter
     \<Rightarrow> (bool \<times> bool \<times> filter) option" where
  "UpdateWith_loop data keyvals i s =
     (if 0 \<le> i
      then (case data of
              None \<Rightarrow> None
            | Some d \<Rightarrow>
                (case traverse (UpdateWith_traverseFunc keyvals (nat i)) d s of
                   ((re, f), s') \<Rightarrow>
                     if re then Some (True, s') else UpdateWith_loop data keyvals (i - 2) s'))
      else Some (False, s))"
  by pat_completeness auto
termination
  by (relation "measure (\<lambda>(data, keyvals, i, s). nat (i + 2))") auto

declare UpdateWith_loop.simps [simp del]

definition store_filter :: "state \<Rightarrow> nat \<Rightarrow> filter \<Rightarrow> state" where
  "store_filter st p l = st\<lparr>filters := (filters st)[p := l]\<rparr>"

text \<open>\<^verbatim>\<open>UpdateWith\<close> assigns the fields of the node at \<open>p\<close> in place.\<close>

definition UpdateWith :: "state \<Rightarrow> nat \<Rightarrow> string list \<Rightarrow> state option" where
  "UpdateWith st p keyvals =
     (if p < length (filters st)
      then
        (let l = filters st ! p in
         case UpdateWith_loop (deref_table st (allowedKV l)) keyvals
                (int (length keyvals) - 2) (False, l) of
           None \<Rightarrow> None
         | Some (returned, keyInallowedKeyvalMap, l') \<Rightarrow>
             if returned then Some (store_filter st p l')
             else if keyInallowedKeyvalMap
             then Some (store_filter st p (l'\<lparr>allowed := initiallyAllowed l'\<rparr>))
             else Some (store_filter st p l'))
      else None)"

subsection \<open>CacheLoggers.update and UpdateFilter\<close>

text \<open>
  The first loop of \<^verbatim>\<open>update\<close> calls every option on a fresh filter that has only
  the cache's table pointer.
\<close>

fun update_options :: "Option list \<Rightarrow> state \<Rightarrow> state option" where
  "update_options [] st = Some st"
| "update_options (opt # opts) st =
     (case apply_option opt
             \<lparr>next_logger = Backend [], allowed = 0, initiallyAllowed = 0,
              allowedKV = cl_allowedKV st\<rparr> st of
        None \<Rightarrow> None
      | Some (l, st') \<Rightarrow> update_options opts st')"

text \<open>The second loop, over the entries of \<^verbatim>\<open>cl.loggersMap\<close>.\<close>

fun update_loggers :: "(string \<times> Logger) list \<Rightarrow> Option option \<Rightarrow> state \<Rightarrow> state option" where
  "update_loggers [] defaultOption st = Some st"
| "update_loggers ((k, v) # rest) defaultOption st =
     (case v of
        OtherLogger b \<Rightarrow> update_loggers rest defaultOption st
      | FilterPtr p \<Rightarrow>
          if p < length (filters st)
          then
            (case (case defaultOption of
                     None \<Rightarrow> Some (filters st ! p, st)
                   | Some opt \<Rightarrow> apply_option opt (filters st ! p) st) of
               None \<Rightarrow> None
             | Some (l, st1) \<Rightarrow>
                 (let st2 = store_filter st1 p (l\<lparr>initiallyAllowed := allowed l\<rparr>);
                      ks = Split k keyvalsSplit
                  in case UpdateWith st2 p ks of
                       None \<Rightarrow> None
                     | Some st3 \<Rightarrow> update_loggers rest defaultOption st3))
          else None)"

definition update :: "state \<Rightarrow> Option option \<Rightarrow> Option list \<Rightarrow> state option" where
  "update st defaultOption opts =
     (case update_options opts st of
        None \<Rightarrow> None
      | Some st1 \<Rightarrow> update_loggers (loggersMap st1) defaultOption st1)"

definition UpdateFilter :: "state \<Rightarrow> Option option \<Rightarrow> Option list \<Rightarrow> state option" where
  "UpdateFilter st defaultOption opts = update st defaultOption opts"

subsection \<open>UpdateLogLevel\<close>

text \<open>
  The loop over the items of the list. It builds the options and applies none
  of them; an error leaves the loop at once.
\<close>

fun parse_items ::
  "string list \<Rightarrow> string list \<Rightarrow> Option option \<Rightarrow> Option list
     \<Rightarrow> error + (Option option \<times> Option list)" where
  "parse_items lst [] defaultOption opts = Inr (defaultOption, opts)"
| "parse_items lst (item # items) defaultOption opts =
     (let moduleAndLevel = Split item CHR '':'' in
      if length moduleAndLevel \<noteq> 2 then Inl (ErrExpectedPairs item lst)
      else
        (let module = moduleAndLevel ! 0;
             lv = moduleAndLevel ! 1
         in if module = ''*''
            then (case AllowLevel lv of
                    Inl e \<Rightarrow> Inl e
                  | Inr opt \<Rightarrow> parse_items lst items (Some opt) opts)
            else if lv = ''debug''
            then parse_items lst items defaultOption
                   (opts @ [AllowDebugWith (Str ''module'') (Str module)])
            else if lv = ''info''
            then parse_items lst items defaultOption
                   (opts @ [AllowInfoWith (Str ''module'') (Str module)])
            else if lv = ''error''
            then parse_items lst items defaultOption
                   (opts @ [AllowErrorWith (Str ''module'') (Str module)])
            else if lv = ''none''
            then parse_items lst items defaultOption
                   (opts @ [AllowNoneWith (Str ''module'') (Str module)])
            else Inl (ErrExpectedLogLevel lv item lst)))"

text \<open>
  \<^verbatim>\<open>UpdateLogLevel\<close> returns an error value or nil, and leaves a state; \<open>None\<close>
  is a panic inside \<^verbatim>\<open>UpdateFilter\<close>.
\<close>

definition UpdateLogLevel :: "state \<Rightarrow> string \<Rightarrow> (error option \<times> state) option" where
  "UpdateLogLevel st lvl =
     (if lvl = [] then Some (Some ErrEmptyLogLevel, st)
      else
        (let l = (if \<not> Contains lvl CHR '':'' then ''*'' @ '':'' @ lvl else lvl);
             lst = Split l CHR '',''
         in case parse_items lst lst None [] of
              Inl e \<Rightarrow> Some (Some e, st)
            | Inr (defaultOption, opts) \<Rightarrow>
                (case UpdateFilter st defaultOption opts of
                   None \<Rightarrow> None
                 | Some st' \<Rightarrow> Some (None, st'))))"

section \<open>Notions used to state the properties\<close>

subsection \<open>Policy strings\<close>

text \<open>
  The items of a policy string: a string without a colon is read as
  \<^verbatim>\<open>*:\<close> followed by the string, and the list is split at the commas. An item is
  malformed when it is not one \<^verbatim>\<open>module:level\<close> pair or its level is not one of
  the four names.
\<close>

definition policy_items :: "string \<Rightarrow> string list" where
  "policy_items lvl = Split (if CHR '':'' \<in> set lvl then lvl else ''*:'' @ lvl) CHR '',''"

definition malformed :: "string \<Rightarrow> bool" where
  "malformed item =
     (let moduleAndLevel = Split item CHR '':''
      in length moduleAndLevel \<noteq> 2 \<or>
         moduleAndLevel ! 1 \<notin> {''debug'', ''info'', ''error'', ''none''})"

subsection \<open>Example states\<close>

text \<open>The state after \<^verbatim>\<open>NewFilter(next, AllowError())\<close> in a fresh process.\<close>

definition st_root :: state where
  "st_root =
     \<lparr>tables = [[(Keyval (Str ''module'') (Str []), levelError)]],
      filters = [\<lparr>next_logger = Backend [], allowed = levelError,
                  initiallyAllowed = levelError, allowedKV = Some 0\<rparr>],
      cl_allowedKV = Some 0, loggersMap = [], backend_events = []\<rparr>"

text \<open>The state after \<^verbatim>\<open>NewFilter(next, AllowInfo())\<close> in a fresh process.\<close>

definition st_info :: state where
  "st_info =
     \<lparr>tables = [[(Keyval (Str ''module'') (Str []), levelError)]],
      filters = [\<lparr>next_logger = Backend [], allowed = levelError OR levelInfo,
                  initiallyAllowed = levelError OR levelInfo, allowedKV = Some 0\<rparr>],
      cl_allowedKV = Some 0, loggersMap = [], backend_events = []\<rparr>"

text \<open>
  The state after \<^verbatim>\<open>NewFilter(next, AllowError(), AllowInfoWith("module", "crypto"),
  AllowNoneWith("user", "Sam"))\<close> in a fresh process, the example of the
  comment on \<^verbatim>\<open>With\<close>.
\<close>

definition st_crypto :: state where
  "st_crypto =
     \<lparr>tables = [[(Keyval (Str ''module'') (Str []), levelError),
                  (Keyval (Str ''module'') (Str ''crypto''), levelError OR levelInfo),
                  (Keyval (Str ''user'') (Str ''Sam''), 0)]],
      filters = [\<lparr>next_logger = Backend [], allowed = levelError,
                  initiallyAllowed = levelError, allowedKV = Some 0\<rparr>],
      cl_allowedKV = Some 0, loggersMap = [], backend_events = []\<rparr>"

text \<open>
  The state after \<^verbatim>\<open>With("user", "Sam")\<close> on the root of \<open>st_root\<close>: a second
  node, with the backend attributes of that call, which the cache does not hold.
\<close>

definition st_child :: state where
  "st_child = st_root\<lparr>filters := filters st_root @
      [\<lparr>next_logger = Backend [Str ''user'', Str ''Sam''], allowed = levelError,
        initiallyAllowed = levelError, allowedKV = Some 0\<rparr>]\<rparr>"

subsection \<open>Qualification\<close>

text \<open>
  The attribute-path string of a sequence of strings: what \<^verbatim>\<open>With\<close> computes
  into \<^verbatim>\<open>keyvalsStr\<close>. It is a function of the strings handed to that call.
\<close>

definition keyvalsStr :: "string list \<Rightarrow> string" where
  "keyvalsStr ss = Trim (concat (map (\<lambda>s. s @ [keyvalsSplit]) ss)) [keyvalsSplit]"

text \<open>
  The (key, value) pairs of a flat sequence, from the last pair backward: the
  last two elements, then the two before them, and so on.
\<close>

fun pairs_rev :: "'a list \<Rightarrow> ('a \<times> 'a) list" where
  "pairs_rev (v # k # rest) = (k, v) # pairs_rev rest"
| "pairs_rev [v] = []"
| "pairs_rev [] = []"

definition pairs_backward :: "'a list \<Rightarrow> ('a \<times> 'a) list" where
  "pairs_backward keyvals = pairs_rev (rev keyvals)"

text \<open>A key is recognised when some entry of the table has it.\<close>

definition key_known :: "allowedKeyvalMap \<Rightarrow> iface \<Rightarrow> bool" where
  "key_known data k = (\<exists>e \<in> set data. key (fst e) = k)"

text \<open>
  The level of the first pair, in the order given, that is an entry of the table
  with both its key and its value.
\<close>

fun first_exact :: "allowedKeyvalMap \<Rightarrow> (iface \<times> iface) list \<Rightarrow> level option" where
  "first_exact data [] = None"
| "first_exact data ((k, v) # ps) =
     (case map_of data (Keyval k v) of Some lv \<Rightarrow> Some lv | None \<Rightarrow> first_exact data ps)"

text \<open>
  The effective level as the specification words it, for the pairs in scanning
  order: the level of the first exact match; without one, the baseline if some
  scanned key is recognised; otherwise the parent's effective level.
\<close>

definition effective_level ::
  "allowedKeyvalMap \<Rightarrow> level \<Rightarrow> level \<Rightarrow> (iface \<times> iface) list \<Rightarrow> level" where
  "effective_level data eff baseline ps =
     (case first_exact data ps of
        Some lv \<Rightarrow> lv
      | None \<Rightarrow> if \<exists>kv \<in> set ps. key_known data (fst kv) then baseline else eff)"

text \<open>The node \<^verbatim>\<open>With\<close> builds from its receiver, but for the level.\<close>

definition derived_node :: "filter \<Rightarrow> iface list \<Rightarrow> level \<Rightarrow> filter" where
  "derived_node l keyvals lv =
     \<lparr>next_logger = backend_With (next_logger l) keyvals, allowed = lv,
      initiallyAllowed = initiallyAllowed l, allowedKV = allowedKV l\<rparr>"

text \<open>The scan recognises a key: some scanned pair has a key of the table.\<close>

definition registers :: "allowedKeyvalMap \<Rightarrow> iface list \<Rightarrow> bool" where
  "registers data keyvals = (\<exists>kv \<in> set (pairs_backward keyvals). key_known data (fst kv))"

text \<open>Two calls of \<^verbatim>\<open>With\<close> in a row on one node: the two loggers returned.\<close>

definition With_twice :: "state \<Rightarrow> nat \<Rightarrow> iface list \<Rightarrow> (Logger \<times> Logger) option" where
  "With_twice st p keyvals =
     (case With st p keyvals of
        None \<Rightarrow> None
      | Some (r1, st1) \<Rightarrow>
          (case With st1 p keyvals of None \<Rightarrow> None | Some (r2, st2) \<Rightarrow> Some (r1, r2)))"

subsection \<open>Policy updates\<close>

text \<open>
  The level of the last option of a list that sets the pair \<open>(k, v)\<close>, if one
  does.
\<close>

fun last_level_for :: "Option list \<Rightarrow> iface \<Rightarrow> iface \<Rightarrow> level option" where
  "last_level_for [] k v = None"
| "last_level_for (opt # opts) k v =
     (case last_level_for opts k v of
        Some lv \<Rightarrow> Some lv
      | None \<Rightarrow>
          (case opt of
             allowedWith_option k' v' lv \<Rightarrow> if k' = k \<and> v' = v then Some lv else None
           | allowed_option lv \<Rightarrow> None))"

text \<open>A table after the options of a list have been called on it, in order.\<close>

fun table_after :: "Option list \<Rightarrow> allowedKeyvalMap \<Rightarrow> allowedKeyvalMap" where
  "table_after [] data = data"
| "table_after (allowed_option lv # opts) data = table_after opts data"
| "table_after (allowedWith_option k v lv # opts) data = table_after opts (set_kv data k v lv)"

text \<open>
  A default option in the sense of the specification: none, or one that sets the
  default level (\<^verbatim>\<open>AllowDebug\<close>, \<^verbatim>\<open>AllowInfo\<close>, \<^verbatim>\<open>AllowError\<close>, \<^verbatim>\<open>AllowNone\<close>).
\<close>

definition is_default :: "Option option \<Rightarrow> bool" where
  "is_default defaultOption =
     (case defaultOption of
        None \<Rightarrow> True
      | Some (allowed_option lv) \<Rightarrow> True
      | Some (allowedWith_option k v lv) \<Rightarrow> False)"

text \<open>
  What \<^verbatim>\<open>update\<close> does to one cached node, in one expression: the level the
  baseline is set to, the table the node points to, and the node after the
  assignment of the baseline and the scan of \<^verbatim>\<open>UpdateWith\<close>.
\<close>

definition base_level :: "Option option \<Rightarrow> filter \<Rightarrow> level" where
  "base_level defaultOption l =
     (case defaultOption of Some (allowed_option lv) \<Rightarrow> lv | _ \<Rightarrow> allowed l)"

definition table_of :: "allowedKeyvalMap list \<Rightarrow> filter \<Rightarrow> allowedKeyvalMap" where
  "table_of T l = (case allowedKV l of Some a \<Rightarrow> if a < length T then T ! a else [] | None \<Rightarrow> [])"

definition rederived :: "allowedKeyvalMap list \<Rightarrow> Option option \<Rightarrow> string \<Rightarrow> filter \<Rightarrow> filter" where
  "rederived T defaultOption path l =
     l\<lparr>initiallyAllowed := base_level defaultOption l,
       allowed := effective_level (table_of T l) (base_level defaultOption l)
                    (base_level defaultOption l)
                    (pairs_backward (map Str (Split path keyvalsSplit)))\<rparr>"

definition node_step ::
  "allowedKeyvalMap list \<Rightarrow> Option option \<Rightarrow> string \<times> Logger \<Rightarrow> filter list \<Rightarrow> filter list" where
  "node_step T defaultOption e fs =
     (case snd e of
        FilterPtr p \<Rightarrow> fs[p := rederived T defaultOption (fst e) (fs ! p)]
      | OtherLogger b \<Rightarrow> fs)"

text \<open>Two policy updates in a row with the same arguments.\<close>

definition update_twice :: "state \<Rightarrow> Option option \<Rightarrow> Option list \<Rightarrow> state option" where
  "update_twice st defaultOption opts =
     (case update st defaultOption opts of
        None \<Rightarrow> None
      | Some st1 \<Rightarrow> update st1 defaultOption opts)"

subsection \<open>Well-formed states\<close>

text \<open>
  What holds of every state the program reaches: a filter node points to an
  allocated table; the cache holds pointers to allocated filter nodes, one entry
  per key and one key per node (\<^verbatim>\<open>With\<close> registers only the node it has just
  allocated); a table, being a Go map, has one entry per key; and
  \<^verbatim>\<open>cacheLoggers.allowedKV\<close> points to an allocated table once there is a filter
  (\<^verbatim>\<open>NewFilter\<close> sets it before it builds the first one).
\<close>

definition valid_ptr :: "nat \<Rightarrow> nat option \<Rightarrow> bool" where
  "valid_ptr n p = (case p of None \<Rightarrow> False | Some a \<Rightarrow> a < n)"

definition valid_logger :: "nat \<Rightarrow> Logger \<Rightarrow> bool" where
  "valid_logger n v = (case v of FilterPtr p \<Rightarrow> p < n | OtherLogger b \<Rightarrow> False)"

definition nodes_ok :: "allowedKeyvalMap list \<Rightarrow> filter list \<Rightarrow> bool" where
  "nodes_ok T fs = list_all (\<lambda>l. valid_ptr (length T) (allowedKV l)) fs"

definition entries_ok :: "filter list \<Rightarrow> (string \<times> Logger) list \<Rightarrow> bool" where
  "entries_ok fs es = list_all (\<lambda>e. valid_logger (length fs) (snd e)) es"

definition wf_state :: "state \<Rightarrow> bool" where
  "wf_state st =
     (nodes_ok (tables st) (filters st) \<and>
      entries_ok (filters st) (loggersMap st) \<and>
      distinct (map fst (loggersMap st)) \<and>
      distinct (map snd (loggersMap st)) \<and>
      list_all (\<lambda>data. distinct (map fst data)) (tables st) \<and>
      (case cl_allowedKV st of None \<Rightarrow> filters st = [] | Some c \<Rightarrow> c < length (tables st)))"

subsection \<open>More example states\<close>

text \<open>
  The state of the test \<^verbatim>\<open>TestFilter_UpdateWith2\<close> after
  \<^verbatim>\<open>logger.With("module", "test3")\<close> on the root of \<open>st_root\<close>.
\<close>

definition st_test3 :: state where
  "st_test3 =
     \<lparr>tables = [[(Keyval (Str ''module'') (Str []), levelError)]],
      filters = [\<lparr>next_logger = Backend [], allowed = levelError,
                  initiallyAllowed = levelError, allowedKV = Some 0\<rparr>,
                 \<lparr>next_logger = Backend [Str ''module'', Str ''test3''], allowed = levelError,
                  initiallyAllowed = levelError, allowedKV = Some 0\<rparr>],
      cl_allowedKV = Some 0, loggersMap = [(''module&test3'', FilterPtr 1)],
      backend_events = []\<rparr>"

text \<open>That state after \<^verbatim>\<open>UpdateLogLevel("test3:debug")\<close>.\<close>

definition st_test3_debug :: state where
  "st_test3_debug =
     \<lparr>tables = [[(Keyval (Str ''module'') (Str []), levelError),
                  (Keyval (Str ''module'') (Str ''test3''), levelError OR levelInfo OR levelDebug)]],
      filters = [\<lparr>next_logger = Backend [], allowed = levelError,
                  initiallyAllowed = levelError, allowedKV = Some 0\<rparr>,
                 \<lparr>next_logger = Backend [Str ''module'', Str ''test3''],
                  allowed = levelError OR levelInfo OR levelDebug,
                  initiallyAllowed = levelError, allowedKV = Some 0\<rparr>],
      cl_allowedKV = Some 0, loggersMap = [(''module&test3'', FilterPtr 1)],
      backend_events = []\<rparr>"

text \<open>
  The state \<open>st_test3\<close> after a second \<^verbatim>\<open>NewFilter(next, AllowError())\<close>: the
  cache now points to the second root's table, and the cached node to the
  first's.
\<close>

definition st_two_roots :: state where
  "st_two_roots =
     \<lparr>tables = [[(Keyval (Str ''module'') (Str []), levelError)],
                 [(Keyval (Str ''module'') (Str []), levelError)]],
      filters = [\<lparr>next_logger = Backend [], allowed = levelError,
                  initiallyAllowed = levelError, allowedKV = Some 0\<rparr>,
                 \<lparr>next_logger = Backend [Str ''module'', Str ''test3''], allowed = levelError,
                  initiallyAllowed = levelError, allowedKV = Some 0\<rparr>,
                 \<lparr>next_logger = Backend [], allowed = levelError,
                  initiallyAllowed = levelError, allowedKV = Some 1\<rparr>],
      cl_allowedKV = Some 1, loggersMap = [(''module&test3'', FilterPtr 1)],
      backend_events = []\<rparr>"

text \<open>The state after \<^verbatim>\<open>With("module", "")\<close> on the root of \<open>st_info\<close>.\<close>

definition st_info_empty :: state where
  "st_info_empty = st_info\<lparr>filters := filters st_info @
      [\<lparr>next_logger = Backend [Str ''module'', Str []], allowed = levelError,
        initiallyAllowed = levelError OR levelInfo, allowedKV = Some 0\<rparr>],
      loggersMap := [(''module'', FilterPtr 1)]\<rparr>"

subsection \<open>Reachable states\<close>

text \<open>
  What a policy update keeps of a state: the number of tables, the table pointer
  of every node, the cache, the cache's table pointer, and that tables have one
  entry per key.
\<close>

definition same_shape :: "state \<Rightarrow> state \<Rightarrow> bool" where
  "same_shape st st' =
     (length (tables st') = length (tables st) \<and>
      map allowedKV (filters st') = map allowedKV (filters st) \<and>
      loggersMap st' = loggersMap st \<and>
      cl_allowedKV st' = cl_allowedKV st \<and>
      (list_all (\<lambda>data. distinct (map fst data)) (tables st) \<longrightarrow>
       list_all (\<lambda>data. distinct (map fst data)) (tables st')))"

text \<open>
  The states of the program: the initial state, and what the operations of the
  package return from a state.
\<close>

inductive reachable :: "state \<Rightarrow> bool" where
  reachable_init: "reachable init_state"
| reachable_NewFilter: "reachable st \<Longrightarrow> NewFilter st nxt opts = Some (r, st') \<Longrightarrow> reachable st'"
| reachable_With: "reachable st \<Longrightarrow> With st p keyvals = Some (r, st') \<Longrightarrow> reachable st'"
| reachable_update: "reachable st \<Longrightarrow> update st d opts = Some st' \<Longrightarrow> reachable st'"
| reachable_Debug: "reachable st \<Longrightarrow> Debug st p msg keyvals = Some st' \<Longrightarrow> reachable st'"
| reachable_Info: "reachable st \<Longrightarrow> Info st p msg keyvals = Some st' \<Longrightarrow> reachable st'"
| reachable_Error: "reachable st \<Longrightarrow> Error st p msg keyvals = Some st' \<Longrightarrow> reachable st'"

section \<open>Properties\<close>

subsection \<open>The example states are states of the program\<close>

lemma NewFilter_st_root:
  "NewFilter init_state (Backend []) [AllowError] = Some (FilterPtr 0, st_root)"
  by (simp add: NewFilter_def init_state_def AllowError_def alloc_filter_def st_root_def)

lemma NewFilter_st_info:
  "NewFilter init_state (Backend []) [AllowInfo] = Some (FilterPtr 0, st_info)"
  by (simp add: NewFilter_def init_state_def AllowInfo_def alloc_filter_def st_info_def)

subsection \<open>Emission\<close>

lemma level_bit:
  fixes w :: level
  shows "(w AND levelDebug \<noteq> 0) = bit w 0"
    and "(w AND levelInfo \<noteq> 0) = bit w 1"
    and "(w AND levelError \<noteq> 0) = bit w 2"
  by (simp_all add: levelDebug_def levelInfo_def levelError_def bit_iff_and_push_bit_not_eq_0)

text \<open>
  Claim C5. For a filter node \<open>p\<close> and each of \<^verbatim>\<open>Debug\<close>, \<^verbatim>\<open>Info\<close> and
  \<^verbatim>\<open>Error\<close>: when the node's \<open>allowed\<close> does not have the operation's bit (bit 0
  for Debug, 1 for Info, 2 for Error) the call returns and leaves the state as
  it was, so the backend receives nothing; when it has the bit, the one effect
  is that the node's backend receives the same message and keyvals through the
  operation of the same level.
\<close>

theorem emit_filtered:
  assumes "p < length (filters st)"
  shows "Debug st p msg keyvals =
           Some (if bit (allowed (filters st ! p)) 0
                 then st\<lparr>backend_events := backend_events st @
                            [(next_logger (filters st ! p), CallDebug, msg, keyvals)]\<rparr>
                 else st) \<and>
         Info st p msg keyvals =
           Some (if bit (allowed (filters st ! p)) 1
                 then st\<lparr>backend_events := backend_events st @
                            [(next_logger (filters st ! p), CallInfo, msg, keyvals)]\<rparr>
                 else st) \<and>
         Error st p msg keyvals =
           Some (if bit (allowed (filters st ! p)) 2
                 then st\<lparr>backend_events := backend_events st @
                            [(next_logger (filters st ! p), CallError, msg, keyvals)]\<rparr>
                 else st)"
  using assms by (simp add: Debug_def Info_def Error_def Let_def level_bit)

theorem emit_filtered_witness:
  "0 < length (filters st_info) \<and>
   Debug st_info 0 ''hello'' [Str ''a'', Num 1] = Some st_info \<and>
   Info st_info 0 ''hello'' [Str ''a'', Num 1] =
     Some (st_info\<lparr>backend_events := [(Backend [], CallInfo, ''hello'', [Str ''a'', Num 1])]\<rparr>) \<and>
   Error st_info 0 ''hello'' [Str ''a'', Num 1] =
     Some (st_info\<lparr>backend_events := [(Backend [], CallError, ''hello'', [Str ''a'', Num 1])]\<rparr>)"
  using emit_filtered [of 0 st_info "''hello''" "[Str ''a'', Num 1]"]
  by (simp add: st_info_def levelError_def levelInfo_def)

subsection \<open>Policy strings\<close>

lemma AllowLevel_Inl:
  "(\<exists>e. AllowLevel lv = Inl e) = (lv \<notin> {''debug'', ''info'', ''error'', ''none''})"
  by (simp add: AllowLevel_def)

lemma parse_items_error:
  "(\<exists>e. parse_items lst items d opts = Inl e) = (\<exists>item \<in> set items. malformed item)"
proof (induction items arbitrary: d opts)
  case Nil
  show ?case by simp
next
  case (Cons item items)
  show ?case
  proof (cases "malformed item")
    case True
    then have "\<exists>e. parse_items lst (item # items) d opts = Inl e"
      by (auto simp add: malformed_def Let_def AllowLevel_def)
    with True show ?thesis by simp
  next
    case False
    then have len: "length (Split item CHR '':'') = 2"
      and lv: "Split item CHR '':'' ! 1 \<in> {''debug'', ''info'', ''error'', ''none''}"
      by (simp_all add: malformed_def Let_def)
    from lv obtain opt where "AllowLevel (Split item CHR '':'' ! 1) = Inr opt"
      using AllowLevel_Inl [of "Split item CHR '':'' ! 1"]
      by (cases "AllowLevel (Split item CHR '':'' ! 1)") auto
    with len lv have "\<exists>d' opts'. parse_items lst (item # items) d opts
        = parse_items lst items d' opts'"
      by (auto simp add: Let_def)
    then obtain d' opts' where
      "parse_items lst (item # items) d opts = parse_items lst items d' opts'"
      by blast
    then show ?thesis
      using Cons.IH [of d' opts'] False by (simp del: parse_items.simps)
  qed
qed

subsection \<open>Qualification\<close>

lemma build_keyvalsStr_Str:
  "build_keyvalsStr (map Str ss) acc = Some (acc @ concat (map (\<lambda>s. s @ [keyvalsSplit]) ss))"
  by (induction ss arbitrary: acc) simp_all

lemma With_traverseFunc_Keyval:
  "With_traverseFunc l keyvals i (Keyval k v) lv flag =
     (if keyvals ! i = k \<and> keyvals ! (i + 1) = v
      then ((True, Some (derived_node l keyvals lv)), True)
      else ((False, None), flag \<or> keyvals ! i = k))"
  by (simp add: With_traverseFunc_def derived_node_def)

lemma key_known_Cons:
  "key_known ((Keyval k v, lv) # data) k' = (k = k' \<or> key_known data k')"
  by (simp add: key_known_def)

lemma traverse_With:
  "traverse (With_traverseFunc l keyvals i) data flag =
     (case map_of data (Keyval (keyvals ! i) (keyvals ! (i + 1))) of
        Some lv \<Rightarrow> ((True, Some (derived_node l keyvals lv)), True)
      | None \<Rightarrow> ((False, None), flag \<or> key_known data (keyvals ! i)))"
proof (induction data arbitrary: flag)
  case Nil
  show ?case by (simp add: key_known_def)
next
  case (Cons e data)
  obtain kv lv where e: "e = (kv, lv)" by (cases e)
  obtain k v where kv: "kv = Keyval k v" by (cases kv)
  show ?case
    by (cases "keyvals ! i = k"; cases "keyvals ! (i + 1) = v")
       (auto simp add: e kv With_traverseFunc_Keyval Cons.IH key_known_Cons split: option.splits)
qed

lemma With_loop_neg: "i < 0 \<Longrightarrow> With_loop data l keyvals i flag = Some (None, flag)"
  by (subst With_loop.simps) simp

lemma With_loop_pairs:
  "n \<le> length keyvals \<Longrightarrow> ps = pairs_rev (rev (take n keyvals)) \<Longrightarrow>
   With_loop (Some data) l keyvals (int n - 2) flag =
     Some (case first_exact data ps of
             Some lv \<Rightarrow> (Some (derived_node l keyvals lv), True)
           | None \<Rightarrow> (None, flag \<or> (\<exists>kv \<in> set ps. key_known data (fst kv))))"
proof (induction n arbitrary: flag ps rule: less_induct)
  case (less n)
  show ?case
  proof (cases "n < 2")
    case True
    then have "n = 0 \<or> n = 1" by arith
    then show ?thesis
    proof
      assume "n = 0" with less.prems show ?thesis by (simp add: With_loop_neg)
    next
      assume "n = 1"
      with less.prems obtain x xs where "keyvals = x # xs" by (cases keyvals) auto
      with \<open>n = 1\<close> less.prems show ?thesis by (simp add: With_loop_neg)
    qed
  next
    case False
    then obtain m where m: "n = m + 2" by (metis add.commute le_Suc_ex not_less)
    with less.prems have len: "m + 1 < length keyvals" by simp
    have tk: "rev (take n keyvals) = keyvals ! (m + 1) # keyvals ! m # rev (take m keyvals)"
      using len by (simp add: m take_Suc_conv_app_nth numeral_2_eq_2)
    have ps: "ps = (keyvals ! m, keyvals ! (m + 1)) # pairs_rev (rev (take m keyvals))"
      using less.prems(2) by (simp add: tk)
    have idx: "int n - 2 = int m" by (simp add: m)
    have IH: "\<And>flag. With_loop (Some data) l keyvals (int m - 2) flag =
     Some (case first_exact data (pairs_rev (rev (take m keyvals))) of
             Some lv \<Rightarrow> (Some (derived_node l keyvals lv), True)
           | None \<Rightarrow> (None, flag \<or> (\<exists>kv \<in> set (pairs_rev (rev (take m keyvals))).
                                        key_known data (fst kv))))"
      using less.IH [of m "pairs_rev (rev (take m keyvals))"] len m by simp
    show ?thesis
      apply (subst With_loop.simps)
      apply (simp only: idx ps)
      apply (simp add: traverse_With IH split: option.splits)
      done
  qed
qed

lemma With_loop_all:
  "With_loop (Some data) l keyvals (int (length keyvals) - 2) False =
     Some (case first_exact data (pairs_backward keyvals) of
             Some lv \<Rightarrow> (Some (derived_node l keyvals lv), True)
           | None \<Rightarrow> (None, False \<or> (\<exists>kv \<in> set (pairs_backward keyvals). key_known data (fst kv))))"
  by (rule With_loop_pairs) (simp_all add: pairs_backward_def)

lemma first_exact_key_known:
  "first_exact data ps = Some lv \<Longrightarrow> \<exists>kv \<in> set ps. key_known data (fst kv)"
proof (induction ps)
  case Nil
  then show ?case by simp
next
  case (Cons kv ps)
  obtain k v where kv: "kv = (k, v)" by (cases kv)
  show ?case
  proof (cases "map_of data (Keyval k v)")
    case None
    with Cons kv show ?thesis by simp
  next
    case (Some lv')
    then have "(Keyval k v, lv') \<in> set data" by (rule map_of_SomeD)
    then have "key_known data k" by (force simp add: key_known_def)
    with kv show ?thesis by simp
  qed
qed

lemma With_miss:
  assumes p: "p < length (filters st)"
    and a: "allowedKV (filters st ! p) = Some a" "a < length (tables st)"
    and miss: "cache_get st (keyvalsStr ss) = None"
  shows "With st p (map Str ss) =
     Some (FilterPtr (length (filters st)),
       (let st' = st\<lparr>filters := filters st @
                 [derived_node (filters st ! p) (map Str ss)
                    (effective_level (tables st ! a) (allowed (filters st ! p))
                       (initiallyAllowed (filters st ! p)) (pairs_backward (map Str ss)))]\<rparr>
        in if registers (tables st ! a) (map Str ss)
           then cache_set st' (keyvalsStr ss) (FilterPtr (length (filters st)))
           else st'))"
proof -
  have d: "deref_table st (allowedKV (filters st ! p)) = Some (tables st ! a)"
    using a by (simp add: deref_table_def)
  have b: "build_keyvalsStr (map Str ss) [] = Some (concat (map (\<lambda>s. s @ [keyvalsSplit]) ss))"
    using build_keyvalsStr_Str [of ss "[]"] by simp
  have m: "cache_get st (Trim (concat (map (\<lambda>s. s @ [keyvalsSplit]) ss)) [keyvalsSplit]) = None"
    using miss by (simp add: keyvalsStr_def)
  have w: "With_loop (Some (tables st ! a)) (filters st ! p) (map Str ss)
              (int (length ss) - 2) False =
     Some (case first_exact (tables st ! a) (pairs_backward (map Str ss)) of
             Some lv \<Rightarrow> (Some (derived_node (filters st ! p) (map Str ss) lv), True)
           | None \<Rightarrow> (None, False \<or> (\<exists>kv \<in> set (pairs_backward (map Str ss)).
                                    key_known (tables st ! a) (fst kv))))"
    using With_loop_all [of "tables st ! a" "filters st ! p" "map Str ss"]
    by simp
  show ?thesis
  proof (cases "first_exact (tables st ! a) (pairs_backward (map Str ss))")
    case (Some lv)
    then have "registers (tables st ! a) (map Str ss)"
      unfolding registers_def by (rule first_exact_key_known)
    with Some show ?thesis
      unfolding With_def using p
      by (simp add: b m d w Let_def alloc_filter_def effective_level_def keyvalsStr_def)
  next
    case None
    then show ?thesis
      unfolding With_def using p
      by (simp add: b m d w Let_def alloc_filter_def effective_level_def registers_def
          keyvalsStr_def derived_node_def)
  qed
qed


lemma With_hit:
  assumes "p < length (filters st)" and "cache_get st (keyvalsStr ss) = Some log"
  shows "With st p (map Str ss) = Some (log, st)"
  using assms build_keyvalsStr_Str [of ss "[]"]
  by (simp add: With_def keyvalsStr_def Let_def)

lemma With_not_strings:
  assumes "p < length (filters st)" and "build_keyvalsStr keyvals [] = None"
  shows "With st p keyvals =
     Some (FilterPtr (length (filters st)),
           st\<lparr>filters := filters st @
                 [derived_node (filters st ! p) keyvals (allowed (filters st ! p))]\<rparr>)"
  using assms by (simp add: With_def alloc_filter_def derived_node_def Let_def)

lemma cache_get_cache_set: "cache_get (cache_set st k r) k = Some r"
  by (simp add: cache_get_def cache_set_def update_conv')

lemma pairs_backward_pairs:
  "pairs_backward (concat (map (\<lambda>(k, v). [k, v]) kvs)) = rev kvs"
  by (induction kvs rule: rev_induct) (auto simp add: pairs_backward_def)

lemma NewFilter_st_crypto:
  "NewFilter init_state (Backend [])
     [AllowError, AllowInfoWith (Str ''module'') (Str ''crypto''),
      AllowNoneWith (Str ''user'') (Str ''Sam'')] = Some (FilterPtr 0, st_crypto)"
  by (simp add: NewFilter_def init_state_def AllowError_def AllowInfoWith_def AllowNoneWith_def
      alloc_filter_def st_crypto_def set_kv_def)

lemmas level_defs = levelDebug_def levelInfo_def levelError_def

text \<open>
  Claim C1. \<^verbatim>\<open>With\<close> is called on a filter node \<open>p\<close> with keyvals that are all
  strings, and their attribute-path string is not in the cache. Then the call
  returns a new node, and that node's \<open>allowed\<close> is the effective level of the
  specification over the pairs scanned from the last pair backward: the level of
  the first pair that is an entry of the node's table with both key and value;
  without such a pair, the parent's \<open>initiallyAllowed\<close> if the key of some scanned
  pair is a key of the table; otherwise the parent's \<open>allowed\<close>.
\<close>

theorem With_effective:
  assumes "p < length (filters st)"
    and "allowedKV (filters st ! p) = Some a" and "a < length (tables st)"
    and "cache_get st (keyvalsStr ss) = None"
  shows "\<exists>st'. With st p (map Str ss) = Some (FilterPtr (length (filters st)), st') \<and>
           filters st' = filters st @
             [derived_node (filters st ! p) (map Str ss)
                (effective_level (tables st ! a) (allowed (filters st ! p))
                   (initiallyAllowed (filters st ! p)) (pairs_backward (map Str ss)))]"
  using With_miss [OF assms] by (simp add: Let_def cache_set_def)

theorem With_effective_witness:
  "0 < length (filters st_crypto) \<and> allowedKV (filters st_crypto ! 0) = Some 0 \<and>
   0 < length (tables st_crypto) \<and>
   cache_get st_crypto (keyvalsStr [''module'', ''crypto'', ''user'', ''Sam'']) = None \<and>
   (\<exists>st'. With st_crypto 0 (map Str [''module'', ''crypto'', ''user'', ''Sam''])
             = Some (FilterPtr 1, st') \<and>
          allowed (filters st' ! 1) = 0)"
  using With_effective [of 0 st_crypto 0 "[''module'', ''crypto'', ''user'', ''Sam'']"]
  by (auto simp add: st_crypto_def cache_get_def effective_level_def pairs_backward_def
      derived_node_def level_defs)

text \<open>
  Claim C3, as the code has it. \<^verbatim>\<open>With\<close> is called twice in a row on a node
  \<open>p\<close> with the same sequence of strings. If the sequence's path is in the cache
  already, or the key of one of its scanned pairs is a key of the node's table,
  then both calls return the same logger, and the second call leaves the state
  as the first call left it: it allocates nothing.
\<close>

theorem With_twice_same:
  assumes "p < length (filters st)"
    and "allowedKV (filters st ! p) = Some a" and "a < length (tables st)"
    and "cache_get st (keyvalsStr ss) \<noteq> None \<or> registers (tables st ! a) (map Str ss)"
  shows "\<exists>r st1. With st p (map Str ss) = Some (r, st1) \<and>
                  With st1 p (map Str ss) = Some (r, st1)"
proof (cases "cache_get st (keyvalsStr ss)")
  case (Some log)
  with assms(1) have "With st p (map Str ss) = Some (log, st)" by (rule With_hit)
  then show ?thesis by blast
next
  case None
  with assms(4) have reg: "registers (tables st ! a) (map Str ss)" by simp
  let ?q = "length (filters st)"
  let ?st' = "st\<lparr>filters := filters st @
                 [derived_node (filters st ! p) (map Str ss)
                    (effective_level (tables st ! a) (allowed (filters st ! p))
                       (initiallyAllowed (filters st ! p)) (pairs_backward (map Str ss)))]\<rparr>"
  let ?st1 = "cache_set ?st' (keyvalsStr ss) (FilterPtr ?q)"
  have 1: "With st p (map Str ss) = Some (FilterPtr ?q, ?st1)"
    using With_miss [OF assms(1-3) None] reg by (simp add: Let_def)
  have "p < length (filters ?st1)" using assms(1) by (simp add: cache_set_def)
  then have "With ?st1 p (map Str ss) = Some (FilterPtr ?q, ?st1)"
    by (rule With_hit) (rule cache_get_cache_set)
  with 1 show ?thesis by blast
qed

theorem With_twice_same_witness:
  "0 < length (filters st_root) \<and> allowedKV (filters st_root ! 0) = Some 0 \<and>
   0 < length (tables st_root) \<and>
   registers (tables st_root ! 0) (map Str [''module'', ''consensus'']) \<and>
   (\<exists>r st1. With st_root 0 (map Str [''module'', ''consensus'']) = Some (r, st1) \<and>
             With st1 0 (map Str [''module'', ''consensus'']) = Some (r, st1))"
  using With_twice_same [of 0 st_root 0 "[''module'', ''consensus'']"]
  by (simp add: st_root_def registers_def pairs_backward_def key_known_def)

text \<open>
  The claim as it is written fails on a sequence none of whose keys is a key of
  the table, and on a sequence with a value that is not a string: the two calls
  return two nodes.
\<close>

theorem With_twice_counterexample:
  "With_twice st_root 0 [Str ''user'', Str ''Sam''] = Some (FilterPtr 1, FilterPtr 2) \<and>
   With_twice st_root 0 [Str ''module'', Num 1] = Some (FilterPtr 1, FilterPtr 2)"
  by (simp add: With_twice_def With_def st_root_def Let_def cache_get_def Trim_def
      keyvalsSplit_def deref_table_def With_loop.simps With_traverseFunc_def alloc_filter_def)

text \<open>
  Claim C10. The key under which \<^verbatim>\<open>With\<close> registers a node is the path string
  of the strings of that one call: it has nothing of the receiver or of the
  receiver's backend attributes. So when a call on a node \<open>p1\<close> registers a node,
  the cache gets that node under \<open>keyvalsStr ss\<close>; and in any state where the
  cache has a logger under \<open>keyvalsStr ss\<close>, \<^verbatim>\<open>With\<close> with the strings \<open>ss\<close> on
  any node \<open>p2\<close> returns that logger and changes nothing.
\<close>

theorem With_cache_key:
  assumes "p1 < length (filters st)"
    and "allowedKV (filters st ! p1) = Some a" and "a < length (tables st)"
    and "cache_get st (keyvalsStr ss) = None"
    and "registers (tables st ! a) (map Str ss)"
  shows "(\<exists>st1. With st p1 (map Str ss) = Some (FilterPtr (length (filters st)), st1) \<and>
            loggersMap st1 =
              AList.update (keyvalsStr ss) (FilterPtr (length (filters st))) (loggersMap st)) \<and>
         (\<forall>st' p2 r. cache_get st' (keyvalsStr ss) = Some r \<and> p2 < length (filters st') \<longrightarrow>
            With st' p2 (map Str ss) = Some (r, st'))"
proof
  show "\<exists>st1. With st p1 (map Str ss) = Some (FilterPtr (length (filters st)), st1) \<and>
            loggersMap st1 =
              AList.update (keyvalsStr ss) (FilterPtr (length (filters st))) (loggersMap st)"
    using With_miss [OF assms(1-4)] assms(5) by (simp add: Let_def cache_set_def)
  show "\<forall>st' p2 r. cache_get st' (keyvalsStr ss) = Some r \<and> p2 < length (filters st') \<longrightarrow>
            With st' p2 (map Str ss) = Some (r, st')"
    by (simp add: With_hit)
qed

lemma With_st_child:
  "With st_root 0 [Str ''user'', Str ''Sam''] = Some (FilterPtr 1, st_child)"
  by (simp add: With_def st_root_def st_child_def Let_def cache_get_def Trim_def
      keyvalsSplit_def deref_table_def With_loop.simps With_traverseFunc_def alloc_filter_def
      backend_With_def)

theorem With_cache_key_witness:
  "0 < length (filters st_child) \<and> allowedKV (filters st_child ! 0) = Some 0 \<and>
   0 < length (tables st_child) \<and>
   cache_get st_child (keyvalsStr [''module'', ''x'']) = None \<and>
   registers (tables st_child ! 0) (map Str [''module'', ''x'']) \<and>
   (\<exists>st1. With st_child 0 (map Str [''module'', ''x'']) = Some (FilterPtr 2, st1) \<and>
           With st1 1 (map Str [''module'', ''x'']) = Some (FilterPtr 2, st1) \<and>
           next_logger (filters st1 ! 2) = Backend [Str ''module'', Str ''x''])"
proof -
  let ?ss = "[''module'', ''x'']"
  have h: "0 < length (filters st_child)" "allowedKV (filters st_child ! 0) = Some 0"
    "0 < length (tables st_child)" "cache_get st_child (keyvalsStr ?ss) = None"
    "registers (tables st_child ! 0) (map Str ?ss)"
    by (simp_all add: st_child_def st_root_def cache_get_def registers_def pairs_backward_def
        key_known_def)
  from With_cache_key [OF h] obtain st1 where
    1: "With st_child 0 (map Str ?ss) = Some (FilterPtr (length (filters st_child)), st1)"
    and 2: "loggersMap st1 = AList.update (keyvalsStr ?ss)
              (FilterPtr (length (filters st_child))) (loggersMap st_child)"
    and 3: "\<And>st' p2 r. cache_get st' (keyvalsStr ?ss) = Some r \<Longrightarrow> p2 < length (filters st')
              \<Longrightarrow> With st' p2 (map Str ?ss) = Some (r, st')"
    by blast
  have len: "length (filters st_child) = 2" by (simp add: st_child_def st_root_def)
  have f: "filters st1 = filters st_child @
     [derived_node (filters st_child ! 0) (map Str ?ss)
        (effective_level (tables st_child ! 0) (allowed (filters st_child ! 0))
           (initiallyAllowed (filters st_child ! 0)) (pairs_backward (map Str ?ss)))]"
    using With_miss [OF h(1-4)] 1 by (auto simp add: Let_def cache_set_def split: if_splits)
  have c: "cache_get st1 (keyvalsStr ?ss) = Some (FilterPtr 2)"
    using 2 len by (simp add: cache_get_def update_conv')
  have "With st1 1 (map Str ?ss) = Some (FilterPtr 2, st1)"
    using c by (rule 3) (simp add: f len)
  moreover have "next_logger (filters st1 ! 2) = Backend [Str ''module'', Str ''x'']"
    using len by (simp add: f derived_node_def backend_With_def st_child_def st_root_def nth_append)
  ultimately show ?thesis using h 1 len by simp
qed

subsection \<open>update_options\<close>

lemma update_options_char:
  "cl_allowedKV st = Some c \<Longrightarrow> c < length (tables st) \<Longrightarrow>
   update_options opts st = Some (st\<lparr>tables := (tables st)[c := table_after opts (tables st ! c)]\<rparr>)"
proof (induction opts arbitrary: st)
  case Nil
  then show ?case by simp
next
  case (Cons opt opts)
  show ?case
  proof (cases opt)
    case (allowed_option lv)
    with Cons show ?thesis by simp
  next
    case (allowedWith_option k v lv)
    let ?st' = "st\<lparr>tables := (tables st)[c := set_kv (tables st ! c) k v lv]\<rparr>"
    have "update_options (opt # opts) st = update_options opts ?st'"
      using Cons.prems allowedWith_option by simp
    also have "\<dots> = Some (?st'\<lparr>tables := (tables ?st')[c := table_after opts (tables ?st' ! c)]\<rparr>)"
      using Cons.prems by (intro Cons.IH) simp_all
    finally show ?thesis using Cons.prems allowedWith_option by simp
  qed
qed

lemma update_options_no_table:
  "\<forall>opt \<in> set opts. \<exists>lv. opt = allowed_option lv \<Longrightarrow> update_options opts st = Some st"
  by (induction opts arbitrary: st) auto

subsection \<open>UpdateWith\<close>

lemma UpdateWith_traverseFunc_Keyval:
  "UpdateWith_traverseFunc keyvals i (Keyval k v) lv (flag, l) =
     (if Str (keyvals ! i) = k \<and> Str (keyvals ! (i + 1)) = v
      then ((True, None), (True, l\<lparr>allowed := lv\<rparr>))
      else ((False, None), (flag \<or> Str (keyvals ! i) = k, l)))"
  by (simp add: UpdateWith_traverseFunc_def)

lemma traverse_UpdateWith:
  "traverse (UpdateWith_traverseFunc keyvals i) data (flag, l) =
     (case map_of data (Keyval (Str (keyvals ! i)) (Str (keyvals ! (i + 1)))) of
        Some lv \<Rightarrow> ((True, None), (True, l\<lparr>allowed := lv\<rparr>))
      | None \<Rightarrow> ((False, None), (flag \<or> key_known data (Str (keyvals ! i)), l)))"
proof (induction data arbitrary: flag)
  case Nil
  show ?case by (simp add: key_known_def)
next
  case (Cons e data)
  obtain kv lv where e: "e = (kv, lv)" by (cases e)
  obtain k v where kv: "kv = Keyval k v" by (cases kv)
  show ?case
    by (cases "Str (keyvals ! i) = k"; cases "Str (keyvals ! (i + 1)) = v")
       (auto simp add: e kv UpdateWith_traverseFunc_Keyval Cons.IH key_known_Cons
          split: option.splits)
qed

lemma UpdateWith_loop_neg: "i < 0 \<Longrightarrow> UpdateWith_loop data keyvals i s = Some (False, s)"
  by (subst UpdateWith_loop.simps) simp

lemma UpdateWith_loop_pairs:
  "n \<le> length keyvals \<Longrightarrow> ps = pairs_rev (rev (take n (map Str keyvals))) \<Longrightarrow>
   UpdateWith_loop (Some data) keyvals (int n - 2) (flag, l) =
     Some (case first_exact data ps of
             Some lv \<Rightarrow> (True, True, l\<lparr>allowed := lv\<rparr>)
           | None \<Rightarrow> (False, flag \<or> (\<exists>kv \<in> set ps. key_known data (fst kv)), l))"
proof (induction n arbitrary: flag ps rule: less_induct)
  case (less n)
  show ?case
  proof (cases "n < 2")
    case True
    then have "n = 0 \<or> n = 1" by arith
    then show ?thesis
    proof
      assume "n = 0" with less.prems show ?thesis by (simp add: UpdateWith_loop_neg)
    next
      assume "n = 1"
      with less.prems obtain x xs where "keyvals = x # xs" by (cases keyvals) auto
      with \<open>n = 1\<close> less.prems show ?thesis by (simp add: UpdateWith_loop_neg)
    qed
  next
    case False
    then obtain m where m: "n = m + 2" by (metis add.commute le_Suc_ex not_less)
    with less.prems have len: "m + 1 < length keyvals" by simp
    have tk: "rev (take n (map Str keyvals)) =
        Str (keyvals ! (m + 1)) # Str (keyvals ! m) # rev (take m (map Str keyvals))"
      using len by (simp add: m take_Suc_conv_app_nth numeral_2_eq_2 take_map)
    have ps: "ps = (Str (keyvals ! m), Str (keyvals ! (m + 1))) #
                     pairs_rev (rev (take m (map Str keyvals)))"
      using less.prems(2) by (simp add: tk)
    have idx: "int n - 2 = int m" by (simp add: m)
    have IH: "\<And>flag. UpdateWith_loop (Some data) keyvals (int m - 2) (flag, l) =
     Some (case first_exact data (pairs_rev (rev (take m (map Str keyvals)))) of
             Some lv \<Rightarrow> (True, True, l\<lparr>allowed := lv\<rparr>)
           | None \<Rightarrow> (False, flag \<or> (\<exists>kv \<in> set (pairs_rev (rev (take m (map Str keyvals)))).
                                        key_known data (fst kv)), l))"
      using less.IH [of m "pairs_rev (rev (take m (map Str keyvals)))"] len m by simp
    show ?thesis
      apply (subst UpdateWith_loop.simps)
      apply (simp only: idx ps)
      apply (simp add: traverse_UpdateWith IH split: option.splits)
      done
  qed
qed

lemma UpdateWith_char:
  assumes "p < length (filters st)"
    and "allowedKV (filters st ! p) = Some a" and "a < length (tables st)"
  shows "UpdateWith st p keyvals =
     Some (store_filter st p
       ((filters st ! p)\<lparr>allowed :=
           effective_level (tables st ! a) (allowed (filters st ! p))
             (initiallyAllowed (filters st ! p)) (pairs_backward (map Str keyvals))\<rparr>))"
proof -
  let ?l = "filters st ! p"
  let ?ps = "pairs_backward (map Str keyvals)"
  have d: "deref_table st (allowedKV ?l) = Some (tables st ! a)"
    using assms by (simp add: deref_table_def)
  have w: "UpdateWith_loop (Some (tables st ! a)) keyvals (int (length keyvals) - 2) (False, ?l) =
     Some (case first_exact (tables st ! a) ?ps of
             Some lv \<Rightarrow> (True, True, ?l\<lparr>allowed := lv\<rparr>)
           | None \<Rightarrow> (False, False \<or> (\<exists>kv \<in> set ?ps. key_known (tables st ! a) (fst kv)), ?l))"
    by (rule UpdateWith_loop_pairs) (simp_all add: pairs_backward_def)
  show ?thesis
  proof (cases "first_exact (tables st ! a) ?ps")
    case (Some lv)
    then show ?thesis
      using assms(1) by (simp add: UpdateWith_def d w Let_def effective_level_def)
  next
    case None
    then show ?thesis
      using assms(1) by (simp add: UpdateWith_def d w Let_def effective_level_def store_filter_def)
  qed
qed


subsection \<open>update_loggers\<close>

lemma nodes_ok_nth:
  "nodes_ok T fs \<Longrightarrow> p < length fs \<Longrightarrow> \<exists>a. allowedKV (fs ! p) = Some a \<and> a < length T"
  by (auto simp add: nodes_ok_def valid_ptr_def list_all_length split: option.splits)

lemma nodes_ok_length: "length T = length T' \<Longrightarrow> nodes_ok T fs = nodes_ok T' fs"
  by (simp add: nodes_ok_def)

lemma rederived_allowedKV [simp]: "allowedKV (rederived T d k l) = allowedKV l"
  by (simp add: rederived_def)

lemma rederived_next_logger [simp]: "next_logger (rederived T d k l) = next_logger l"
  by (simp add: rederived_def)

lemma nodes_ok_update:
  "nodes_ok T fs \<Longrightarrow> p < length fs \<Longrightarrow> nodes_ok T (fs[p := rederived T' d k (fs ! p)])"
  unfolding nodes_ok_def list_all_length
  by (auto simp add: nth_list_update)

lemma node_step_FilterPtr:
  "node_step T d (k, FilterPtr p) fs = fs[p := rederived T d k (fs ! p)]"
  by (simp add: node_step_def)

lemma node_step_other:
  "snd e \<noteq> FilterPtr q \<Longrightarrow> node_step T d e fs ! q = fs ! q"
  by (cases "snd e") (auto simp add: node_step_def)

lemma length_node_step [simp]: "length (node_step T d e fs) = length fs"
  by (simp add: node_step_def split: Logger.splits)

lemma length_fold_node_step [simp]: "length (fold (node_step T d) es fs) = length fs"
  by (induction es arbitrary: fs) simp_all

lemma update_step:
  assumes d: "is_default d" and p: "p < length (filters st)"
    and a: "allowedKV (filters st ! p) = Some a" "a < length (tables st)"
  shows "(case (case d of None \<Rightarrow> Some (filters st ! p, st)
                | Some opt \<Rightarrow> apply_option opt (filters st ! p) st) of
            None \<Rightarrow> None
          | Some (l, st1) \<Rightarrow>
              (let st2 = store_filter st1 p (l\<lparr>initiallyAllowed := allowed l\<rparr>);
                   ks = Split k keyvalsSplit
               in case UpdateWith st2 p ks of
                    None \<Rightarrow> None
                  | Some st3 \<Rightarrow> F st3)) =
         F (st\<lparr>filters := (filters st)[p := rederived (tables st) d k (filters st ! p)]\<rparr>)"
proof -
  let ?l = "filters st ! p"
  let ?b = "base_level d ?l"
  let ?l2 = "?l\<lparr>allowed := ?b, initiallyAllowed := ?b\<rparr>"
  let ?st2 = "store_filter st p ?l2"
  have first: "(case d of None \<Rightarrow> Some (?l, st) | Some opt \<Rightarrow> apply_option opt ?l st)
      = Some (?l\<lparr>allowed := ?b\<rparr>, st)"
    using d by (auto simp add: is_default_def base_level_def split: option.splits Option.splits)
  have p2: "p < length (filters ?st2)" using p by (simp add: store_filter_def)
  have a2: "allowedKV (filters ?st2 ! p) = Some a" "a < length (tables ?st2)"
    using p a by (simp_all add: store_filter_def)
  have u: "UpdateWith ?st2 p (Split k keyvalsSplit) =
      Some (st\<lparr>filters := (filters st)[p := rederived (tables st) d k ?l]\<rparr>)"
    using UpdateWith_char [OF p2 a2, of "Split k keyvalsSplit"] p a
    by (simp add: store_filter_def rederived_def table_of_def)
  show ?thesis
    by (simp add: first Let_def u)
qed

lemma update_loggers_char:
  assumes "is_default d"
  shows "nodes_ok (tables st) (filters st) \<Longrightarrow> entries_ok (filters st) es \<Longrightarrow>
     update_loggers es d st
       = Some (st\<lparr>filters := fold (node_step (tables st) d) es (filters st)\<rparr>)"
proof (induction es arbitrary: st)
  case Nil
  show ?case by simp
next
  case (Cons e es)
  obtain k v where e: "e = (k, v)" by (cases e)
  from Cons.prems(2) e obtain p where v: "v = FilterPtr p" and p: "p < length (filters st)"
    by (auto simp add: entries_ok_def valid_logger_def split: Logger.splits)
  from nodes_ok_nth [OF Cons.prems(1) p] obtain a where
    a: "allowedKV (filters st ! p) = Some a" "a < length (tables st)" by blast
  let ?st' = "st\<lparr>filters := (filters st)[p := rederived (tables st) d k (filters st ! p)]\<rparr>"
  have "update_loggers (e # es) d st = update_loggers es d ?st'"
    using p update_step [OF assms p a, of k "update_loggers es d"]
    by (simp add: e v)
  also have "\<dots> = Some (?st'\<lparr>filters := fold (node_step (tables ?st') d) es (filters ?st')\<rparr>)"
  proof (rule Cons.IH)
    show "nodes_ok (tables ?st') (filters ?st')"
      using nodes_ok_update [OF Cons.prems(1) p] by simp
    show "entries_ok (filters ?st') es"
      using Cons.prems(2) by (simp add: entries_ok_def)
  qed
  finally show ?case by (simp add: e v node_step_FilterPtr)
qed

lemma fold_node_step_other:
  "FilterPtr q \<notin> snd ` set es \<Longrightarrow> fold (node_step T d) es fs ! q = fs ! q"
proof (induction es arbitrary: fs)
  case Nil
  show ?case by simp
next
  case (Cons e es)
  then have "snd e \<noteq> FilterPtr q" and "FilterPtr q \<notin> snd ` set es" by auto
  then show ?case by (simp add: Cons.IH node_step_other)
qed

lemma fold_node_step_nth:
  "distinct (map snd es) \<Longrightarrow> (k, FilterPtr q) \<in> set es \<Longrightarrow> q < length fs \<Longrightarrow>
   fold (node_step T d) es fs ! q = rederived T d k (fs ! q)"
proof (induction es arbitrary: fs)
  case Nil
  then show ?case by simp
next
  case (Cons e es)
  show ?case
  proof (cases "e = (k, FilterPtr q)")
    case True
    with Cons.prems(1) have "FilterPtr q \<notin> snd ` set es" by auto
    then have "fold (node_step T d) es (node_step T d e fs) ! q = node_step T d e fs ! q"
      by (rule fold_node_step_other)
    with True Cons.prems(3) show ?thesis by (simp add: node_step_FilterPtr)
  next
    case False
    with Cons.prems have in_es: "(k, FilterPtr q) \<in> set es" by simp
    with Cons.prems(1) have ne: "snd e \<noteq> FilterPtr q" by force
    have "fold (node_step T d) es (node_step T d e fs) ! q = rederived T d k (node_step T d e fs ! q)"
      using Cons.prems by (intro Cons.IH in_es) simp_all
    moreover have "node_step T d e fs ! q = fs ! q"
      using ne by (rule node_step_other)
    ultimately show ?thesis by simp
  qed
qed


subsection \<open>update\<close>

lemma wf_state_nodes_ok: "wf_state st \<Longrightarrow> nodes_ok (tables st) (filters st)"
  by (simp add: wf_state_def)

lemma wf_state_entries_ok: "wf_state st \<Longrightarrow> entries_ok (filters st) (loggersMap st)"
  by (simp add: wf_state_def)

lemma wf_state_cached:
  assumes "wf_state st" and "(path, FilterPtr p) \<in> set (loggersMap st)"
  shows "p < length (filters st)"
    and "\<exists>a. allowedKV (filters st ! p) = Some a \<and> a < length (tables st)"
    and "\<exists>c. cl_allowedKV st = Some c \<and> c < length (tables st)"
proof -
  show p: "p < length (filters st)"
    using assms by (force simp add: wf_state_def entries_ok_def valid_logger_def list_all_iff)
  show "\<exists>a. allowedKV (filters st ! p) = Some a \<and> a < length (tables st)"
    using nodes_ok_nth [OF wf_state_nodes_ok [OF assms(1)] p] .
  from p have "filters st \<noteq> []" by auto
  with assms(1) show "\<exists>c. cl_allowedKV st = Some c \<and> c < length (tables st)"
    by (auto simp add: wf_state_def split: option.splits)
qed

lemma update_char:
  assumes wf: "wf_state st" and d: "is_default d"
    and c: "cl_allowedKV st = Some c" "c < length (tables st)"
  shows "update st d opts =
     Some (st\<lparr>tables := (tables st)[c := table_after opts (tables st ! c)],
              filters := fold (node_step ((tables st)[c := table_after opts (tables st ! c)]) d)
                           (loggersMap st) (filters st)\<rparr>)"
proof -
  let ?T = "(tables st)[c := table_after opts (tables st ! c)]"
  let ?st1 = "st\<lparr>tables := ?T\<rparr>"
  have 1: "update_options opts st = Some ?st1"
    using c by (rule update_options_char)
  have n: "nodes_ok (tables ?st1) (filters ?st1)"
    using wf_state_nodes_ok [OF wf] nodes_ok_length [of ?T "tables st" "filters st"] by simp
  have e: "entries_ok (filters ?st1) (loggersMap ?st1)"
    using wf_state_entries_ok [OF wf] by simp
  show ?thesis
    using update_loggers_char [OF d n e] by (simp add: update_def 1)
qed

lemma effective_level_same_base:
  "effective_level data b b ps = (case first_exact data ps of Some lv \<Rightarrow> lv | None \<Rightarrow> b)"
  by (simp add: effective_level_def split: option.splits)

lemma map_of_set_kv:
  "map_of (set_kv data k v lv) kv = (if kv = Keyval k v then Some lv else map_of data kv)"
  by (simp add: set_kv_def update_conv')

lemma map_of_table_after:
  "map_of (table_after opts data) (Keyval k v) =
     (case last_level_for opts k v of Some lv \<Rightarrow> Some lv | None \<Rightarrow> map_of data (Keyval k v))"
proof (induction opts arbitrary: data)
  case Nil
  show ?case by simp
next
  case (Cons opt opts)
  show ?case
    by (cases opt) (auto simp add: Cons.IH map_of_set_kv split: option.splits)
qed


subsection \<open>idempotence of the table update\<close>

lemma alist_eqI:
  "distinct (map fst xs) \<Longrightarrow> map fst xs = map fst ys \<Longrightarrow> map_of xs = map_of ys \<Longrightarrow> xs = ys"
proof (induction xs arbitrary: ys)
  case Nil
  then show ?case by simp
next
  case (Cons x xs)
  from Cons.prems(2) obtain y ys' where ys: "ys = y # ys'" by (cases ys) auto
  with Cons.prems(2) have k: "fst x = fst y" and ks: "map fst xs = map fst ys'" by simp_all
  from Cons.prems(3) have "map_of (x # xs) (fst x) = map_of ys (fst x)" by (rule fun_cong)
  with ys k have v: "snd x = snd y" by simp
  have "map_of xs = map_of ys'"
  proof
    fix a
    show "map_of xs a = map_of ys' a"
    proof (cases "a = fst x")
      case True
      with Cons.prems(1) have "a \<notin> fst ` set xs" by auto
      moreover from this ks have "a \<notin> fst ` set ys'" by (metis list.set_map)
      ultimately have "map_of xs a = None" and "map_of ys' a = None"
        by (simp_all add: map_of_eq_None_iff)
      then show ?thesis by simp
    next
      case False
      from Cons.prems(3) have "map_of (x # xs) a = map_of ys a" by (rule fun_cong)
      with False ys k show ?thesis by simp
    qed
  qed
  with Cons.IH [of ys'] Cons.prems(1) ks have "xs = ys'" by simp
  with k v ys show ?case by (simp add: prod_eq_iff)
qed

lemma distinct_set_kv: "distinct (map fst data) \<Longrightarrow> distinct (map fst (set_kv data k v lv))"
  by (simp add: set_kv_def distinct_update)

lemma distinct_table_after:
  "distinct (map fst data) \<Longrightarrow> distinct (map fst (table_after opts data))"
proof (induction opts arbitrary: data)
  case Nil
  then show ?case by simp
next
  case (Cons opt opts)
  then show ?case by (cases opt) (simp_all add: distinct_set_kv)
qed

lemma keys_table_after_present:
  "(\<And>k v. last_level_for opts k v \<noteq> None \<Longrightarrow> Keyval k v \<in> fst ` set data) \<Longrightarrow>
   map fst (table_after opts data) = map fst data"
proof (induction opts arbitrary: data)
  case Nil
  show ?case by simp
next
  case (Cons opt opts)
  show ?case
  proof (cases opt)
    case (allowed_option lv)
    have "map fst (table_after opts data) = map fst data"
    proof (rule Cons.IH)
      fix k v assume "last_level_for opts k v \<noteq> None"
      then have "last_level_for (opt # opts) k v \<noteq> None" by (auto split: option.splits)
      then show "Keyval k v \<in> fst ` set data" by (rule Cons.prems)
    qed
    with allowed_option show ?thesis by simp
  next
    case (allowedWith_option k' v' lv)
    have "last_level_for (opt # opts) k' v' \<noteq> None"
      using allowedWith_option by (simp split: option.splits)
    then have here: "Keyval k' v' \<in> fst ` set data" by (rule Cons.prems)
    then have keys: "map fst (set_kv data k' v' lv) = map fst data"
      by (simp add: set_kv_def update_keys)
    have "map fst (table_after opts (set_kv data k' v' lv)) = map fst (set_kv data k' v' lv)"
    proof (rule Cons.IH)
      fix k v assume "last_level_for opts k v \<noteq> None"
      then have "last_level_for (opt # opts) k v \<noteq> None" by (auto split: option.splits)
      then have "Keyval k v \<in> fst ` set data" by (rule Cons.prems)
      then have "Keyval k v \<in> set (map fst data)" by simp
      then show "Keyval k v \<in> fst ` set (set_kv data k' v' lv)"
        by (simp only: keys [symmetric] list.set_map)
    qed
    with allowedWith_option keys show ?thesis by simp
  qed
qed

lemma table_after_idem:
  assumes "distinct (map fst data)"
  shows "table_after opts (table_after opts data) = table_after opts data"
proof (rule alist_eqI)
  show "distinct (map fst (table_after opts (table_after opts data)))"
    using assms by (intro distinct_table_after)
  show "map fst (table_after opts (table_after opts data)) = map fst (table_after opts data)"
  proof (rule keys_table_after_present)
    fix k v assume "last_level_for opts k v \<noteq> None"
    then have "map_of (table_after opts data) (Keyval k v) \<noteq> None"
      by (auto simp add: map_of_table_after)
    then show "Keyval k v \<in> fst ` set (table_after opts data)"
      by (simp add: map_of_eq_None_iff)
  qed
  show "map_of (table_after opts (table_after opts data)) = map_of (table_after opts data)"
  proof
    fix kv
    obtain k v where kv: "kv = Keyval k v" by (cases kv)
    show "map_of (table_after opts (table_after opts data)) kv
        = map_of (table_after opts data) kv"
      unfolding kv by (simp add: map_of_table_after split: option.splits)
  qed
qed

subsection \<open>re-deriving twice\<close>

lemma table_of_rederived [simp]: "table_of T (rederived T' d k l) = table_of T l"
  by (simp add: table_of_def)

lemma allowed_rederived:
  "allowed (rederived T d k l) =
     (case first_exact (table_of T l) (pairs_backward (map Str (Split k keyvalsSplit))) of
        Some lv \<Rightarrow> lv | None \<Rightarrow> base_level d l)"
  by (simp add: rederived_def effective_level_same_base)

lemma initiallyAllowed_rederived [simp]:
  "initiallyAllowed (rederived T d k l) = base_level d l"
  by (simp add: rederived_def)

lemma rederived_twice_allowed:
  "allowed (rederived T d k (rederived T d k l)) = allowed (rederived T d k l)"
proof -
  let ?l' = "rederived T d k l"
  let ?ps = "pairs_backward (map Str (Split k keyvalsSplit))"
  show ?thesis
  proof (cases "first_exact (table_of T l) ?ps")
    case (Some lv)
    then show ?thesis by (simp add: allowed_rederived)
  next
    case None
    then have a: "allowed ?l' = base_level d l" by (simp add: allowed_rederived)
    have "base_level d ?l' = base_level d l"
      using a by (simp add: base_level_def split: option.splits Option.splits)
    with None show ?thesis by (simp add: allowed_rederived)
  qed
qed

lemma rederived_twice:
  "rederived T (Some (allowed_option x)) k (rederived T (Some (allowed_option x)) k l)
     = rederived T (Some (allowed_option x)) k l"
  by (simp add: rederived_def base_level_def table_of_def)

lemma map_allowedKV_fold [simp]:
  "map allowedKV (fold (node_step T d) es fs) = map allowedKV fs"
proof (induction es arbitrary: fs)
  case Nil
  show ?case by simp
next
  case (Cons e es)
  have "map allowedKV (node_step T d e fs) = map allowedKV fs"
  proof (cases "snd e")
    case (FilterPtr p)
    show ?thesis
    proof (cases "p < length fs")
      case True
      then show ?thesis
        by (simp add: FilterPtr node_step_def map_update list_update_same_conv)
    next
      case False
      then have "length fs \<le> p" by simp
      then have "fs[p := rederived T d (fst e) (fs ! p)] = fs" by (rule list_update_beyond)
      then show ?thesis by (simp add: FilterPtr node_step_def)
    qed
  next
    case (OtherLogger b)
    then show ?thesis by (simp add: node_step_def)
  qed
  with Cons.IH show ?case by simp
qed

lemma nodes_ok_map: "map allowedKV fs' = map allowedKV fs \<Longrightarrow> length T' = length T \<Longrightarrow>
    nodes_ok T' fs' = nodes_ok T fs"
proof -
  assume a: "map allowedKV fs' = map allowedKV fs" and b: "length T' = length T"
  have "nodes_ok T' fs' = list_all (valid_ptr (length T')) (map allowedKV fs')"
    by (simp add: nodes_ok_def list_all_iff)
  also have "\<dots> = list_all (valid_ptr (length T)) (map allowedKV fs)" by (simp add: a b)
  also have "\<dots> = nodes_ok T fs" by (simp add: nodes_ok_def list_all_iff)
  finally show ?thesis .
qed


lemma wf_state_update:
  assumes wf: "wf_state st" and c: "cl_allowedKV st = Some c"
  shows "wf_state (st\<lparr>tables := (tables st)[c := table_after opts (tables st ! c)],
              filters := fold (node_step T d) (loggersMap st) (filters st)\<rparr>)"
proof -
  let ?T = "(tables st)[c := table_after opts (tables st ! c)]"
  let ?F = "fold (node_step T d) (loggersMap st) (filters st)"
  have c': "c < length (tables st)" using wf c by (simp add: wf_state_def)
  have 1: "nodes_ok ?T ?F"
    using wf nodes_ok_map [of ?F "filters st" ?T "tables st"] by (simp add: wf_state_def)
  have 2: "entries_ok ?F (loggersMap st)"
    using wf by (simp add: wf_state_def entries_ok_def)
  have "distinct (map fst (tables st ! c))"
    using wf c' by (simp add: wf_state_def list_all_length)
  then have "distinct (map fst (table_after opts (tables st ! c)))"
    by (rule distinct_table_after)
  then have 3: "list_all (\<lambda>data. distinct (map fst data)) ?T"
    using wf by (auto simp add: wf_state_def list_all_iff dest: set_update_subset_insert [THEN subsetD])
  show ?thesis
    using wf c 1 2 3 by (simp add: wf_state_def)
qed

subsection \<open>Policy updates on the example states\<close>

lemmas eval_defs = With_def Let_def cache_get_def cache_set_def Trim_def keyvalsSplit_def
  deref_table_def With_loop.simps With_traverseFunc_def alloc_filter_def backend_With_def
  update_def UpdateFilter_def UpdateWith_def UpdateWith_loop.simps UpdateWith_traverseFunc_def
  store_filter_def NewFilter_def set_kv_def
  AllowDebug_def AllowInfo_def AllowError_def AllowNone_def
  AllowDebugWith_def AllowInfoWith_def AllowErrorWith_def AllowNoneWith_def

lemma With_st_test3:
  "With st_root 0 [Str ''module'', Str ''test3''] = Some (FilterPtr 1, st_test3)"
  by (simp add: eval_defs st_root_def st_test3_def)

lemma UpdateLogLevel_st_test3_debug:
  "UpdateLogLevel st_test3 ''test3:debug'' = Some (None, st_test3_debug)"
  by (simp add: UpdateLogLevel_def Contains_def AllowLevel_def eval_defs st_test3_def
      st_test3_debug_def)

lemma NewFilter_st_two_roots:
  "NewFilter st_test3 (Backend []) [AllowError] = Some (FilterPtr 2, st_two_roots)"
  by (simp add: eval_defs st_test3_def st_two_roots_def)

lemma wf_st_test3: "wf_state st_test3"
  by (simp add: wf_state_def st_test3_def nodes_ok_def entries_ok_def valid_ptr_def
      valid_logger_def)

lemma wf_st_test3_debug: "wf_state st_test3_debug"
  by (simp add: wf_state_def st_test3_debug_def nodes_ok_def entries_ok_def valid_ptr_def
      valid_logger_def)

subsection \<open>The claims on policy updates\<close>

text \<open>
  Claim C9. \<^verbatim>\<open>update\<close> runs with no default option. Then for every node \<open>p\<close> the
  cache holds, the update returns, the node's \<open>initiallyAllowed\<close> is afterwards the
  \<open>allowed\<close> the node had before the update, and the scan has run against that
  new baseline: the node's new \<open>allowed\<close> is the effective level over the pairs of
  its path with the old \<open>allowed\<close> both as baseline and as inherited level. The
  baseline the node had before plays no part.
\<close>

theorem update_nil_default_baseline:
  assumes "wf_state st" and "(path, FilterPtr p) \<in> set (loggersMap st)"
  shows "\<exists>st'. update st None opts = Some st' \<and>
           initiallyAllowed (filters st' ! p) = allowed (filters st ! p) \<and>
           allowed (filters st' ! p) =
             effective_level (table_of (tables st') (filters st ! p))
               (allowed (filters st ! p)) (allowed (filters st ! p))
               (pairs_backward (map Str (Split path keyvalsSplit)))"
proof -
  from wf_state_cached [OF assms] obtain c where
    p: "p < length (filters st)" and c: "cl_allowedKV st = Some c" "c < length (tables st)"
    by blast
  let ?T = "(tables st)[c := table_after opts (tables st ! c)]"
  let ?st' = "st\<lparr>tables := ?T, filters := fold (node_step ?T None) (loggersMap st) (filters st)\<rparr>"
  have "is_default None" by (simp add: is_default_def)
  with assms(1) have u: "update st None opts = Some ?st'" using c by (rule update_char)
  have "distinct (map snd (loggersMap st))" using assms(1) by (simp add: wf_state_def)
  then have "filters ?st' ! p = rederived ?T None path (filters st ! p)"
    using assms(2) p by (simp add: fold_node_step_nth)
  then show ?thesis
    using u by (simp add: rederived_def base_level_def)
qed

theorem update_nil_default_baseline_witness:
  "wf_state st_test3_debug \<and> (''module&test3'', FilterPtr 1) \<in> set (loggersMap st_test3_debug) \<and>
   initiallyAllowed (filters st_test3_debug ! 1) = levelError \<and>
   allowed (filters st_test3_debug ! 1) = levelError OR levelInfo OR levelDebug \<and>
   (\<exists>st'. update st_test3_debug None [] = Some st' \<and>
          initiallyAllowed (filters st' ! 1) = levelError OR levelInfo OR levelDebug)"
  using update_nil_default_baseline [of st_test3_debug "''module&test3''" 1 "[]"] wf_st_test3_debug
  by (auto simp add: st_test3_debug_def)

text \<open>
  Claim C2, as the code has it. \<^verbatim>\<open>update\<close> runs with a default option that is
  nil or sets a default level, and with a list of options. Let \<open>p\<close> be a node the
  cache holds under a path that splits at the separator into exactly a key \<open>k\<close>
  and a value \<open>v\<close>, let the node point to the table the cache points to, and let
  \<open>lv\<close> be the level of the last option of the list that sets the pair \<open>(k, v)\<close>.
  Then the update returns, the cache is the same list of the same pointers, no
  node has been allocated, and the object at \<open>p\<close> has \<open>allowed = lv\<close>: whoever
  held the pointer before the update sees the new level.
\<close>

theorem update_matching_node:
  assumes "wf_state st" and "is_default defaultOption"
    and "(path, FilterPtr p) \<in> set (loggersMap st)"
    and "allowedKV (filters st ! p) = cl_allowedKV st"
    and "Split path keyvalsSplit = [k, v]"
    and "last_level_for opts (Str k) (Str v) = Some lv"
  shows "\<exists>st'. update st defaultOption opts = Some st' \<and>
           loggersMap st' = loggersMap st \<and>
           length (filters st') = length (filters st) \<and>
           allowed (filters st' ! p) = lv"
proof -
  from wf_state_cached [OF assms(1,3)] obtain c where
    p: "p < length (filters st)" and c: "cl_allowedKV st = Some c" "c < length (tables st)"
    by blast
  let ?T = "(tables st)[c := table_after opts (tables st ! c)]"
  let ?st' = "st\<lparr>tables := ?T,
                 filters := fold (node_step ?T defaultOption) (loggersMap st) (filters st)\<rparr>"
  have u: "update st defaultOption opts = Some ?st'"
    using assms(1,2) c by (rule update_char)
  have "distinct (map snd (loggersMap st))" using assms(1) by (simp add: wf_state_def)
  then have n: "filters ?st' ! p = rederived ?T defaultOption path (filters st ! p)"
    using assms(3) p by (simp add: fold_node_step_nth)
  have t: "table_of ?T (filters st ! p) = table_after opts (tables st ! c)"
    using assms(4) c by (simp add: table_of_def)
  have "first_exact (table_after opts (tables st ! c)) [(Str k, Str v)] = Some lv"
    using assms(6) by (simp add: map_of_table_after)
  then have "allowed (rederived ?T defaultOption path (filters st ! p)) = lv"
    by (simp add: allowed_rederived t assms(5) pairs_backward_def)
  with u n show ?thesis by simp
qed

theorem update_matching_node_witness:
  "wf_state st_test3 \<and> is_default None \<and>
   (''module&test3'', FilterPtr 1) \<in> set (loggersMap st_test3) \<and>
   allowedKV (filters st_test3 ! 1) = cl_allowedKV st_test3 \<and>
   Split ''module&test3'' keyvalsSplit = [''module'', ''test3''] \<and>
   last_level_for [AllowDebugWith (Str ''module'') (Str ''test3'')]
     (Str ''module'') (Str ''test3'') = Some (levelError OR levelInfo OR levelDebug) \<and>
   (\<exists>st'. update st_test3 None [AllowDebugWith (Str ''module'') (Str ''test3'')] = Some st' \<and>
          loggersMap st' = loggersMap st_test3 \<and>
          length (filters st') = length (filters st_test3) \<and>
          allowed (filters st' ! 1) = levelError OR levelInfo OR levelDebug)"
proof -
  have h: "is_default None"
    "(''module&test3'', FilterPtr 1) \<in> set (loggersMap st_test3)"
    "allowedKV (filters st_test3 ! 1) = cl_allowedKV st_test3"
    "Split ''module&test3'' keyvalsSplit = [''module'', ''test3'']"
    "last_level_for [AllowDebugWith (Str ''module'') (Str ''test3'')]
       (Str ''module'') (Str ''test3'') = Some (levelError OR levelInfo OR levelDebug)"
    by (simp_all add: is_default_def st_test3_def keyvalsSplit_def AllowDebugWith_def)
  from update_matching_node [OF wf_st_test3 h] wf_st_test3 h show ?thesis by simp
qed

text \<open>
  The claim as it is written fails in three ways. In \<open>st_two_roots\<close> the cache
  holds a node of the first root under the path of the option, the option goes
  into the second root's table, and the node keeps its level. When two options
  of one call set the same pair, the node ends with the level of the second, not
  of the first. And an option handed over as the default option is called on
  every node after the list has been applied, so one that sets the same pair
  wins over the list.
\<close>

theorem update_matching_node_counterexample:
  "map_option (\<lambda>s. allowed (filters s ! 1))
     (update st_two_roots None [AllowDebugWith (Str ''module'') (Str ''test3'')])
     = Some levelError \<and>
   map_option (\<lambda>s. allowed (filters s ! 1))
     (update st_test3 None [AllowDebugWith (Str ''module'') (Str ''test3''),
                            AllowNoneWith (Str ''module'') (Str ''test3'')])
     = Some 0 \<and>
   map_option (\<lambda>s. allowed (filters s ! 1))
     (update st_test3 (Some (AllowNoneWith (Str ''module'') (Str ''test3'')))
        [AllowDebugWith (Str ''module'') (Str ''test3'')])
     = Some 0"
  by (simp add: eval_defs st_two_roots_def st_test3_def)

text \<open>
  Claim C6, as the code has it. \<^verbatim>\<open>update\<close> runs twice in a row with the same
  default option (nil, or one that sets a default level) and the same list of
  options. Both runs return; after the second the tables, the cache and every
  node's \<open>allowed\<close> are what they were after the first; when a default option
  was given the whole state is the same, \<open>initiallyAllowed\<close> included; and when
  none was given, the \<open>initiallyAllowed\<close> of every cached node after the second
  run is the \<open>allowed\<close> the first run left.
\<close>

theorem update_idempotent:
  assumes wf: "wf_state st" and d: "is_default d" and c: "cl_allowedKV st = Some c"
  shows "\<exists>st1 st2. update st d opts = Some st1 \<and> update st1 d opts = Some st2 \<and>
           tables st2 = tables st1 \<and> loggersMap st2 = loggersMap st1 \<and>
           map allowed (filters st2) = map allowed (filters st1) \<and>
           (d \<noteq> None \<longrightarrow> st2 = st1) \<and>
           (d = None \<longrightarrow>
              (\<forall>k q. (k, FilterPtr q) \<in> set (loggersMap st) \<longrightarrow>
                 initiallyAllowed (filters st2 ! q) = allowed (filters st1 ! q)))"
proof -
  have c': "c < length (tables st)" using wf c by (simp add: wf_state_def)
  let ?T = "(tables st)[c := table_after opts (tables st ! c)]"
  let ?es = "loggersMap st"
  let ?F1 = "fold (node_step ?T d) ?es (filters st)"
  let ?st1 = "st\<lparr>tables := ?T, filters := ?F1\<rparr>"
  let ?F2 = "fold (node_step ?T d) ?es ?F1"
  let ?st2 = "?st1\<lparr>filters := ?F2\<rparr>"
  have u1: "update st d opts = Some ?st1" using wf d c c' by (rule update_char)
  have wf1: "wf_state ?st1" using wf c by (rule wf_state_update)
  have dist: "distinct (map fst (tables st ! c))"
    using wf c' by (simp add: wf_state_def list_all_length)
  have T2: "(tables ?st1)[c := table_after opts (tables ?st1 ! c)] = ?T"
    using c' by (simp add: table_after_idem [OF dist])
  have "update ?st1 d opts =
      Some (?st1\<lparr>tables := (tables ?st1)[c := table_after opts (tables ?st1 ! c)],
                  filters := fold (node_step ((tables ?st1)[c := table_after opts (tables ?st1 ! c)]) d)
                               (loggersMap ?st1) (filters ?st1)\<rparr>)"
    using wf1 d by (rule update_char) (simp_all add: c c')
  then have u2: "update ?st1 d opts = Some ?st2"
    by (simp only: T2) simp
  have dsnd: "distinct (map snd ?es)" using wf by (simp add: wf_state_def)
  have nth: "\<And>q. q < length (filters st) \<Longrightarrow>
      ?F2 ! q = (if FilterPtr q \<in> snd ` set ?es
                 then rederived ?T d (SOME k. (k, FilterPtr q) \<in> set ?es) (?F1 ! q)
                 else ?F1 ! q) \<and>
      ?F1 ! q = (if FilterPtr q \<in> snd ` set ?es
                 then rederived ?T d (SOME k. (k, FilterPtr q) \<in> set ?es) (filters st ! q)
                 else filters st ! q)"
  proof -
    fix q assume q: "q < length (filters st)"
    show "?F2 ! q = (if FilterPtr q \<in> snd ` set ?es
                 then rederived ?T d (SOME k. (k, FilterPtr q) \<in> set ?es) (?F1 ! q)
                 else ?F1 ! q) \<and>
      ?F1 ! q = (if FilterPtr q \<in> snd ` set ?es
                 then rederived ?T d (SOME k. (k, FilterPtr q) \<in> set ?es) (filters st ! q)
                 else filters st ! q)"
    proof (cases "FilterPtr q \<in> snd ` set ?es")
      case True
      then have "\<exists>k. (k, FilterPtr q) \<in> set ?es" by force
      then have k: "((SOME k. (k, FilterPtr q) \<in> set ?es), FilterPtr q) \<in> set ?es"
        by (rule someI_ex)
      show ?thesis
        using True q fold_node_step_nth [OF dsnd k] by simp
    next
      case False
      then show ?thesis by (simp add: fold_node_step_other)
    qed
  qed
  have al: "map allowed ?F2 = map allowed ?F1"
  proof (rule nth_equalityI)
    show "length (map allowed ?F2) = length (map allowed ?F1)" by simp
    fix q assume "q < length (map allowed ?F2)"
    then have q: "q < length (filters st)" by simp
    from nth [OF q] show "map allowed ?F2 ! q = map allowed ?F1 ! q"
      using q by (auto simp add: rederived_twice_allowed)
  qed
  have full: "d \<noteq> None \<Longrightarrow> ?F2 = ?F1"
  proof (rule nth_equalityI)
    show "length ?F2 = length ?F1" by simp
    fix q assume "d \<noteq> None" and "q < length ?F2"
    then have q: "q < length (filters st)" by simp
    from \<open>d \<noteq> None\<close> d obtain x where x: "d = Some (allowed_option x)"
      by (auto simp add: is_default_def split: option.splits Option.splits)
    from nth [OF q] show "?F2 ! q = ?F1 ! q"
      by (auto simp add: x rederived_twice)
  qed
  have "tables ?st2 = tables ?st1" "loggersMap ?st2 = loggersMap ?st1" by simp_all
  moreover have "map allowed (filters ?st2) = map allowed (filters ?st1)" using al by simp
  moreover have "d \<noteq> None \<longrightarrow> ?st2 = ?st1" using full by simp
  moreover have "d = None \<longrightarrow>
      (\<forall>k q. (k, FilterPtr q) \<in> set ?es \<longrightarrow>
         initiallyAllowed (filters ?st2 ! q) = allowed (filters ?st1 ! q))"
  proof (intro impI allI)
    fix k q assume none: "d = None" and e: "(k, FilterPtr q) \<in> set ?es"
    from wf_state_cached(1) [OF wf e] have q: "q < length (filters st)" .
    from e have "FilterPtr q \<in> snd ` set ?es" by force
    with nth [OF q] have "?F2 ! q = rederived ?T d (SOME k. (k, FilterPtr q) \<in> set ?es) (?F1 ! q)"
      by simp
    then show "initiallyAllowed (filters ?st2 ! q) = allowed (filters ?st1 ! q)"
      by (simp add: none base_level_def)
  qed
  ultimately show ?thesis using u1 u2 by blast
qed

theorem update_idempotent_witness:
  "wf_state st_test3 \<and> is_default (Some AllowInfo) \<and> cl_allowedKV st_test3 = Some 0 \<and>
   (\<exists>st1 st2.
      update st_test3 (Some AllowInfo) [AllowDebugWith (Str ''module'') (Str ''test1'')] = Some st1 \<and>
      update st1 (Some AllowInfo) [AllowDebugWith (Str ''module'') (Str ''test1'')] = Some st2 \<and>
      st2 = st1)"
proof -
  have h: "is_default (Some AllowInfo)" "cl_allowedKV st_test3 = Some 0"
    by (simp_all add: is_default_def AllowInfo_def st_test3_def)
  from update_idempotent [OF wf_st_test3 h] wf_st_test3 h show ?thesis by blast
qed

text \<open>
  The claim as it is written fails without a default option: the first run
  leaves the node of \<open>st_test3\<close> with the baseline it had, Error, and the second
  run with the level the first run gave it.
\<close>

theorem update_idempotent_counterexample:
  "map_option (\<lambda>s. initiallyAllowed (filters s ! 1))
     (update st_test3 None [AllowDebugWith (Str ''module'') (Str ''test3'')])
     = Some levelError \<and>
   map_option (\<lambda>s. initiallyAllowed (filters s ! 1))
     (update_twice st_test3 None [AllowDebugWith (Str ''module'') (Str ''test3'')])
     = Some (levelError OR levelInfo OR levelDebug)"
  by (simp add: eval_defs st_test3_def update_twice_def)

subsection \<open>The bootstrap entry\<close>

lemma key_known_set_kv:
  "key_known (set_kv data k v lv) k' = (k' = k \<or> key_known data k')"
proof -
  have keys: "set (map fst (AList.update (Keyval k v) lv data))
      = insert (Keyval k v) (set (map fst data))"
    by (auto simp add: update_keys)
  have "key_known d k' = (k' \<in> key ` set (map fst d))" for d
    by (auto simp add: key_known_def)
  then show ?thesis
    by (simp only: set_kv_def keys) auto
qed

lemma first_exact_set_kv_other:
  "(k, v) \<notin> set ps \<Longrightarrow>
   first_exact (set_kv data k v lv) ps = first_exact (set_kv data k v lv') ps"
proof (induction ps)
  case Nil
  show ?case by simp
next
  case (Cons kv ps)
  obtain k' v' where kv: "kv = (k', v')" by (cases kv)
  with Cons.prems have ne: "Keyval k' v' \<noteq> Keyval k v" and "(k, v) \<notin> set ps" by auto
  then have IH: "first_exact (set_kv data k v lv) ps = first_exact (set_kv data k v lv') ps"
    by (intro Cons.IH)
  have m: "map_of (set_kv data k v x) (Keyval k' v') = map_of data (Keyval k' v')" for x
    using ne by (auto simp add: map_of_set_kv)
  show ?case
    by (simp only: kv first_exact.simps m IH)
qed

text \<open>
  Claim C7, as the code has it. The entry \<^verbatim>\<open>("module", "")\<close> is matched exactly
  by a scanned pair \<^verbatim>\<open>("module", "")\<close> and by no other: when no scanned pair is
  that pair, the scan of \<^verbatim>\<open>With\<close> and the scan of \<^verbatim>\<open>UpdateWith\<close> give the
  same result whatever level the entry holds, so the level a node adopts is not
  taken from it.
\<close>

theorem bootstrap_entry_level_irrelevant:
  "((Str ''module'', Str []) \<notin> set (pairs_backward keyvals) \<longrightarrow>
      With_loop (Some (set_kv data (Str ''module'') (Str []) lv)) l keyvals
          (int (length keyvals) - 2) False
        = With_loop (Some (set_kv data (Str ''module'') (Str []) levelError)) l keyvals
            (int (length keyvals) - 2) False) \<and>
   ((Str ''module'', Str []) \<notin> set (pairs_backward (map Str ks)) \<longrightarrow>
      UpdateWith_loop (Some (set_kv data (Str ''module'') (Str []) lv)) ks
          (int (length ks) - 2) (False, l)
        = UpdateWith_loop (Some (set_kv data (Str ''module'') (Str []) levelError)) ks
            (int (length ks) - 2) (False, l))"
proof (intro conjI impI)
  let ?d = "\<lambda>x. set_kv data (Str ''module'') (Str []) x"
  assume a: "(Str ''module'', Str []) \<notin> set (pairs_backward keyvals)"
  have "first_exact (?d lv) (pairs_backward keyvals) = first_exact (?d levelError) (pairs_backward keyvals)"
    using a by (rule first_exact_set_kv_other)
  then show "With_loop (Some (?d lv)) l keyvals (int (length keyvals) - 2) False
        = With_loop (Some (?d levelError)) l keyvals (int (length keyvals) - 2) False"
    by (simp add: With_loop_all key_known_set_kv split: option.splits)
next
  let ?d = "\<lambda>x. set_kv data (Str ''module'') (Str []) x"
  let ?ps = "pairs_backward (map Str ks)"
  assume a: "(Str ''module'', Str []) \<notin> set ?ps"
  have f: "first_exact (?d lv) ?ps = first_exact (?d levelError) ?ps"
    using a by (rule first_exact_set_kv_other)
  have w: "UpdateWith_loop (Some (?d x)) ks (int (length ks) - 2) (False, l) =
     Some (case first_exact (?d x) ?ps of
             Some lv \<Rightarrow> (True, True, l\<lparr>allowed := lv\<rparr>)
           | None \<Rightarrow> (False, False \<or> (\<exists>kv \<in> set ?ps. key_known (?d x) (fst kv)), l))" for x
    by (rule UpdateWith_loop_pairs) (simp_all add: pairs_backward_def)
  show "UpdateWith_loop (Some (?d lv)) ks (int (length ks) - 2) (False, l)
        = UpdateWith_loop (Some (?d levelError)) ks (int (length ks) - 2) (False, l)"
    by (simp add: w f key_known_set_kv split: option.splits)
qed

theorem bootstrap_entry_level_irrelevant_witness:
  "(Str ''module'', Str []) \<notin> set (pairs_backward [Str ''module'', Str ''consensus'']) \<and>
   With_loop (Some (set_kv [] (Str ''module'') (Str []) 0)) (filters st_root ! 0)
       [Str ''module'', Str ''consensus''] 0 False
     = With_loop (Some (set_kv [] (Str ''module'') (Str []) levelError)) (filters st_root ! 0)
         [Str ''module'', Str ''consensus''] 0 False \<and>
   (Str ''module'', Str []) \<notin> set (pairs_backward (map Str [''module'', ''consensus''])) \<and>
   UpdateWith_loop (Some (set_kv [] (Str ''module'') (Str []) 0))
       [''module'', ''consensus''] 0 (False, filters st_root ! 0)
     = UpdateWith_loop (Some (set_kv [] (Str ''module'') (Str []) levelError))
         [''module'', ''consensus''] 0 (False, filters st_root ! 0)"
  using bootstrap_entry_level_irrelevant
    [of "[Str ''module'', Str ''consensus'']" "[]" 0 "filters st_root ! 0" "[''module'', ''consensus'']"]
  by (simp add: pairs_backward_def)

text \<open>
  The claim as it is written fails on \<^verbatim>\<open>With("module", "")\<close>. In \<open>st_info\<close> the
  table has the bootstrap entry alone and the root allows Info and Error, as
  effective level and as baseline; the derived node allows Error only, the level
  of the entry.
\<close>

theorem bootstrap_entry_counterexample:
  "tables st_info = [[(Keyval (Str ''module'') (Str []), levelError)]] \<and>
   allowed (filters st_info ! 0) = levelError OR levelInfo \<and>
   initiallyAllowed (filters st_info ! 0) = levelError OR levelInfo \<and>
   With st_info 0 [Str ''module'', Str []] = Some (FilterPtr 1, st_info_empty) \<and>
   allowed (filters st_info_empty ! 1) = levelError"
  by (simp add: eval_defs st_info_def st_info_empty_def)

subsection \<open>UpdateLogLevel\<close>

lemma is_default_AllowLevel: "AllowLevel lv = Inr opt \<Longrightarrow> is_default (Some opt)"
  by (auto simp add: AllowLevel_def is_default_def AllowDebug_def AllowInfo_def AllowError_def
      AllowNone_def split: if_splits)

lemma parse_items_default:
  "parse_items lst items d opts = Inr (d', opts') \<Longrightarrow> is_default d \<Longrightarrow> is_default d'"
proof (induction items arbitrary: d opts)
  case Nil
  then show ?case by simp
next
  case (Cons item items)
  from Cons.prems(1) show ?case
    by (auto simp add: Let_def is_default_AllowLevel Cons.prems(2)
        split: if_splits sum.splits intro: Cons.IH)
qed

lemma update_returns:
  assumes "wf_state st" and "is_default d" and "cl_allowedKV st \<noteq> None"
  shows "update st d opts \<noteq> None"
proof -
  from assms(3) obtain c where c: "cl_allowedKV st = Some c" by auto
  with assms(1) have "c < length (tables st)" by (simp add: wf_state_def)
  with assms(1,2) c show ?thesis by (simp add: update_char)
qed

text \<open>
  Claim C4. \<^verbatim>\<open>UpdateLogLevel\<close> returns an error exactly when the string is empty
  or one of its items is malformed (it is not one \<^verbatim>\<open>module:level\<close> pair, or its
  level is none of \<^verbatim>\<open>debug\<close>, \<^verbatim>\<open>info\<close>, \<^verbatim>\<open>error\<close>, \<^verbatim>\<open>none\<close>); whenever it
  returns an error the state it leaves is the state it was called in: no table
  and no cached node has changed, whatever the earlier items of the string were;
  and in a well-formed state in which \<^verbatim>\<open>NewFilter\<close> has run it does return.
\<close>

theorem UpdateLogLevel_error:
  "((\<exists>e st'. UpdateLogLevel st lvl = Some (Some e, st')) \<longleftrightarrow>
      (lvl = [] \<or> (\<exists>item \<in> set (policy_items lvl). malformed item))) \<and>
   (\<forall>e st'. UpdateLogLevel st lvl = Some (Some e, st') \<longrightarrow> st' = st) \<and>
   (wf_state st \<and> cl_allowedKV st \<noteq> None \<longrightarrow> UpdateLogLevel st lvl \<noteq> None)"
proof -
  let ?lst = "policy_items lvl"
  have unfold: "lvl \<noteq> [] \<Longrightarrow> UpdateLogLevel st lvl =
      (case parse_items ?lst ?lst None [] of
         Inl e \<Rightarrow> Some (Some e, st)
       | Inr (defaultOption, opts) \<Rightarrow>
           (case UpdateFilter st defaultOption opts of
              None \<Rightarrow> None
            | Some st' \<Rightarrow> Some (None, st')))"
    by (simp add: UpdateLogLevel_def policy_items_def Contains_def Let_def)
  show ?thesis
  proof (cases "lvl = []")
    case True
    then show ?thesis by (simp add: UpdateLogLevel_def)
  next
    case False
    show ?thesis
    proof (cases "parse_items ?lst ?lst None []")
      case (Inl e)
      then have "\<exists>item \<in> set ?lst. malformed item"
        using parse_items_error [of ?lst ?lst None "[]"] by auto
      with Inl False show ?thesis by (simp add: unfold)
    next
      case (Inr r)
      obtain d opts where r: "r = (d, opts)" by (cases r)
      have "is_default None" by (simp add: is_default_def)
      with Inr r have d: "is_default d" by (auto dest: parse_items_default)
      have ret: "wf_state st \<and> cl_allowedKV st \<noteq> None \<longrightarrow> UpdateFilter st d opts \<noteq> None"
        using d by (simp add: UpdateFilter_def update_returns)
      from Inr have "\<not> (\<exists>item \<in> set ?lst. malformed item)"
        using parse_items_error [of ?lst ?lst None "[]"] by auto
      with Inr False r ret show ?thesis
        by (auto simp add: unfold split: option.splits)
    qed
  qed
qed

theorem UpdateLogLevel_error_witness:
  "(\<exists>item \<in> set (policy_items ''main:info,test3:erro''). malformed item) \<and>
   (\<exists>e. UpdateLogLevel st_test3 ''main:info,test3:erro'' = Some (Some e, st_test3)) \<and>
   wf_state st_test3 \<and> cl_allowedKV st_test3 \<noteq> None \<and>
   UpdateLogLevel st_test3 ''main:info,test3:debug'' \<noteq> None"
proof -
  have "\<exists>item \<in> set (policy_items ''main:info,test3:erro''). malformed item"
    by (simp add: policy_items_def malformed_def)
  moreover have "cl_allowedKV st_test3 \<noteq> None" by (simp add: st_test3_def)
  ultimately show ?thesis
    using UpdateLogLevel_error [of st_test3 "''main:info,test3:erro''"]
      UpdateLogLevel_error [of st_test3 "''main:info,test3:debug''"] wf_st_test3
    by blast
qed

subsection \<open>Reachable states are well-formed\<close>

lemma same_shape_refl: "same_shape st st"
  by (simp add: same_shape_def)

lemma same_shape_trans: "same_shape st st' \<Longrightarrow> same_shape st' st'' \<Longrightarrow> same_shape st st''"
  by (simp add: same_shape_def)

lemma wf_state_same_shape:
  assumes "wf_state st" and "same_shape st st'"
  shows "wf_state st'"
proof -
  from assms(2) have len: "length (filters st') = length (filters st)"
    unfolding same_shape_def by (metis length_map)
  then have e: "(filters st' = []) = (filters st = [])" by (metis length_0_conv)
  have "nodes_ok (tables st') (filters st') = nodes_ok (tables st) (filters st)"
    using assms(2) by (intro nodes_ok_map) (simp_all add: same_shape_def)
  with assms len e show ?thesis
    by (auto simp add: wf_state_def same_shape_def entries_ok_def split: option.splits)
qed

lemma distinct_tables_update:
  "list_all (\<lambda>data. distinct (map fst data)) T \<Longrightarrow> distinct (map fst d) \<Longrightarrow>
   list_all (\<lambda>data. distinct (map fst data)) (T[a := d])"
  by (auto simp add: list_all_iff dest: set_update_subset_insert [THEN subsetD])

lemma apply_option_shape:
  assumes "apply_option opt l st = Some (l', st')"
  shows "allowedKV l' = allowedKV l \<and> same_shape st st'"
proof (cases opt)
  case (allowed_option lv)
  with assms show ?thesis by (auto simp add: same_shape_refl)
next
  case (allowedWith_option k v lv)
  with assms obtain a where a: "allowedKV l = Some a" "a < length (tables st)"
    and r: "l' = l" "st' = st\<lparr>tables := (tables st)[a := set_kv (tables st ! a) k v lv]\<rparr>"
    by (auto split: option.splits if_splits)
  have "list_all (\<lambda>data. distinct (map fst data)) (tables st) \<Longrightarrow>
      list_all (\<lambda>data. distinct (map fst data)) ((tables st)[a := set_kv (tables st ! a) k v lv])"
    using a(2) by (intro distinct_tables_update distinct_set_kv) (simp_all add: list_all_length)
  with r show ?thesis by (simp add: same_shape_def)
qed

lemma apply_options_shape:
  "apply_options opts l st = Some (l', st') \<Longrightarrow> allowedKV l' = allowedKV l \<and> same_shape st st'"
proof (induction opts arbitrary: l st)
  case Nil
  then show ?case by (simp add: same_shape_refl)
next
  case (Cons opt opts)
  from Cons.prems obtain l1 st1 where 1: "apply_option opt l st = Some (l1, st1)"
    and 2: "apply_options opts l1 st1 = Some (l', st')"
    by (auto split: option.splits)
  from apply_option_shape [OF 1] Cons.IH [OF 2] show ?case
    by (auto intro: same_shape_trans)
qed

lemma update_options_shape:
  "update_options opts st = Some st' \<Longrightarrow> same_shape st st'"
proof (induction opts arbitrary: st)
  case Nil
  then show ?case by (simp add: same_shape_refl)
next
  case (Cons opt opts)
  let ?l = "\<lparr>next_logger = Backend [], allowed = 0, initiallyAllowed = 0,
              allowedKV = cl_allowedKV st\<rparr>"
  from Cons.prems obtain l1 st1 where 1: "apply_option opt ?l st = Some (l1, st1)"
    and 2: "update_options opts st1 = Some st'"
    by (auto split: option.splits)
  from apply_option_shape [OF 1] Cons.IH [OF 2] show ?case
    by (auto intro: same_shape_trans)
qed

lemma store_filter_shape:
  "p < length (filters st) \<Longrightarrow> allowedKV l = allowedKV (filters st ! p) \<Longrightarrow>
   same_shape st (store_filter st p l)"
  by (simp add: same_shape_def store_filter_def map_update list_update_same_conv)

lemma UpdateWith_loop_allowedKV:
  "UpdateWith_loop data keyvals (int (length keyvals) - 2) (False, l) = Some (r, flag, l') \<Longrightarrow>
   allowedKV l' = allowedKV l \<and> initiallyAllowed l' = initiallyAllowed l"
proof (cases data)
  case None
  assume a: "UpdateWith_loop data keyvals (int (length keyvals) - 2) (False, l) = Some (r, flag, l')"
  show ?thesis
  proof (cases "0 \<le> int (length keyvals) - 2")
    case True
    with a None show ?thesis by (subst (asm) UpdateWith_loop.simps) simp
  next
    case False
    with a show ?thesis by (simp add: UpdateWith_loop_neg)
  qed
next
  case (Some d)
  assume a: "UpdateWith_loop data keyvals (int (length keyvals) - 2) (False, l) = Some (r, flag, l')"
  have "UpdateWith_loop (Some d) keyvals (int (length keyvals) - 2) (False, l) =
     Some (case first_exact d (pairs_backward (map Str keyvals)) of
             Some lv \<Rightarrow> (True, True, l\<lparr>allowed := lv\<rparr>)
           | None \<Rightarrow> (False, False \<or> (\<exists>kv \<in> set (pairs_backward (map Str keyvals)).
                                         key_known d (fst kv)), l))"
    by (rule UpdateWith_loop_pairs) (simp_all add: pairs_backward_def)
  with a Some show ?thesis by (auto split: option.splits)
qed

lemma UpdateWith_shape:
  assumes "UpdateWith st p keyvals = Some st'"
  shows "same_shape st st'"
proof -
  from assms have p: "p < length (filters st)" by (simp add: UpdateWith_def split: if_splits)
  let ?l = "filters st ! p"
  from assms p obtain r flag l' where
    loop: "UpdateWith_loop (deref_table st (allowedKV ?l)) keyvals
             (int (length keyvals) - 2) (False, ?l) = Some (r, flag, l')"
    by (auto simp add: UpdateWith_def Let_def split: option.splits)
  from UpdateWith_loop_allowedKV [OF loop] have k: "allowedKV l' = allowedKV ?l" by simp
  from assms p loop have "st' = store_filter st p l' \<or>
      st' = store_filter st p (l'\<lparr>allowed := initiallyAllowed l'\<rparr>)"
    by (auto simp add: UpdateWith_def Let_def split: if_splits)
  then show ?thesis
    using store_filter_shape [OF p, of l'] store_filter_shape [OF p, of "l'\<lparr>allowed := initiallyAllowed l'\<rparr>"] k
    by auto
qed

lemma update_loggers_shape:
  "update_loggers es d st = Some st' \<Longrightarrow> same_shape st st'"
proof (induction es arbitrary: st)
  case Nil
  then show ?case by (simp add: same_shape_refl)
next
  case (Cons e es)
  obtain k v where e: "e = (k, v)" by (cases e)
  show ?case
  proof (cases v)
    case (OtherLogger b)
    with Cons e show ?thesis by simp
  next
    case (FilterPtr p)
    with Cons.prems e have p: "p < length (filters st)" by (simp split: if_splits)
    from Cons.prems e FilterPtr p obtain l st1 st3 where
      1: "(case d of None \<Rightarrow> Some (filters st ! p, st)
            | Some opt \<Rightarrow> apply_option opt (filters st ! p) st) = Some (l, st1)"
      and 2: "UpdateWith (store_filter st1 p (l\<lparr>initiallyAllowed := allowed l\<rparr>)) p
                (Split k keyvalsSplit) = Some st3"
      and 3: "update_loggers es d st3 = Some st'"
      by (auto simp add: Let_def split: option.splits)
    from 1 have a: "allowedKV l = allowedKV (filters st ! p) \<and> same_shape st st1"
      by (cases d) (auto simp add: same_shape_refl dest: apply_option_shape)
    then have p1: "p < length (filters st1)"
      using p unfolding same_shape_def by (metis length_map)
    have "allowedKV (filters st1 ! p) = allowedKV (filters st ! p)"
      using a p p1 unfolding same_shape_def by (metis nth_map)
    with a have "same_shape st1 (store_filter st1 p (l\<lparr>initiallyAllowed := allowed l\<rparr>))"
      by (intro store_filter_shape p1) simp
    with a UpdateWith_shape [OF 2] Cons.IH [OF 3] show ?thesis
      by (blast intro: same_shape_trans)
  qed
qed

lemma update_shape: "update st d opts = Some st' \<Longrightarrow> same_shape st st'"
  by (auto simp add: update_def split: option.splits
      dest!: update_options_shape update_loggers_shape intro: same_shape_trans)


lemma wf_init_state: "wf_state init_state"
  by (simp add: wf_state_def init_state_def nodes_ok_def entries_ok_def)

lemma wf_state_alloc:
  assumes wf: "wf_state st" and v: "valid_ptr (length (tables st)) (allowedKV f)"
    and c: "cl_allowedKV st \<noteq> None"
  shows "wf_state (st\<lparr>filters := filters st @ [f]\<rparr>)"
proof -
  have "entries_ok (filters st @ [f]) (loggersMap st)"
    using wf by (auto simp add: wf_state_def entries_ok_def valid_logger_def list_all_iff
        split: Logger.splits)
  with wf v c show ?thesis
    by (auto simp add: wf_state_def nodes_ok_def split: option.splits)
qed

lemma update_absent: "k \<notin> fst ` set al \<Longrightarrow> AList.update k v al = al @ [(k, v)]"
  by (induction al) auto

lemma wf_state_register:
  assumes wf: "wf_state st" and v: "valid_ptr (length (tables st)) (allowedKV f)"
    and c: "cl_allowedKV st \<noteq> None" and miss: "cache_get st k = None"
  shows "wf_state (cache_set (st\<lparr>filters := filters st @ [f]\<rparr>) k (FilterPtr (length (filters st))))"
proof -
  let ?q = "length (filters st)"
  from miss have notin: "k \<notin> fst ` set (loggersMap st)"
    by (simp add: cache_get_def map_of_eq_None_iff)
  then have upd: "AList.update k (FilterPtr ?q) (loggersMap st) = loggersMap st @ [(k, FilterPtr ?q)]"
    by (rule update_absent)
  have old: "\<forall>e \<in> set (loggersMap st). valid_logger ?q (snd e)"
    using wf by (simp add: wf_state_def entries_ok_def list_all_iff)
  then have fresh: "FilterPtr ?q \<notin> snd ` set (loggersMap st)"
    by (force simp add: valid_logger_def)
  have 1: "entries_ok (filters st @ [f]) (loggersMap st @ [(k, FilterPtr ?q)])"
    using old by (auto simp add: entries_ok_def valid_logger_def list_all_iff split: Logger.splits)
  have 2: "distinct (map fst (loggersMap st @ [(k, FilterPtr ?q)]))"
    using wf notin by (simp add: wf_state_def)
  have 3: "distinct (map snd (loggersMap st @ [(k, FilterPtr ?q)]))"
    using wf fresh by (simp add: wf_state_def)
  from wf v c 1 2 3 show ?thesis
    by (auto simp add: wf_state_def cache_set_def upd nodes_ok_def split: option.splits)
qed

lemma build_keyvalsStr_Some:
  "build_keyvalsStr keyvals acc = Some s \<Longrightarrow> \<exists>ss. keyvals = map Str ss"
proof (induction keyvals acc rule: build_keyvalsStr.induct)
  case (1 acc)
  show ?case by simp
next
  case (2 s' kvs acc)
  then obtain ss where "kvs = map Str ss" by auto
  then have "Str s' # kvs = map Str (s' # ss)" by simp
  then show ?case ..
next
  case (3 n kvs acc)
  then show ?case by simp
qed

lemma wf_state_With:
  assumes wf: "wf_state st" and w: "With st p keyvals = Some (r, st')"
  shows "wf_state st'"
proof -
  from w have p: "p < length (filters st)" by (simp add: With_def split: if_splits)
  from nodes_ok_nth [OF wf_state_nodes_ok [OF wf] p] obtain a where
    a: "allowedKV (filters st ! p) = Some a" "a < length (tables st)" by blast
  from p have "filters st \<noteq> []" by auto
  with wf have c: "cl_allowedKV st \<noteq> None"
    by (auto simp add: wf_state_def split: option.splits)
  have v: "valid_ptr (length (tables st)) (allowedKV (derived_node (filters st ! p) kvs lv))"
    for kvs lv using a by (simp add: derived_node_def valid_ptr_def)
  show ?thesis
  proof (cases "build_keyvalsStr keyvals []")
    case None
    from With_not_strings [OF p None] w wf_state_alloc [OF wf v c] show ?thesis by auto
  next
    case (Some s)
    then obtain ss where ss: "keyvals = map Str ss" by (auto dest: build_keyvalsStr_Some)
    show ?thesis
    proof (cases "cache_get st (keyvalsStr ss)")
      case (Some log)
      from With_hit [OF p Some] w ss wf show ?thesis by simp
    next
      case None
      from With_miss [OF p a None] w ss
        wf_state_alloc [OF wf v c] wf_state_register [OF wf v c None]
      show ?thesis by (auto simp add: Let_def split: if_splits)
    qed
  qed
qed

lemma wf_state_NewFilter:
  assumes wf: "wf_state st" and n: "NewFilter st nxt opts = Some (r, st')"
  shows "wf_state st'"
proof -
  let ?a = "length (tables st)"
  let ?st1 = "st\<lparr>tables := tables st @ [[(Keyval (Str ''module'') (Str []), levelError)]],
                 cl_allowedKV := Some ?a\<rparr>"
  let ?l = "\<lparr>next_logger = nxt, allowed = 0, initiallyAllowed = 0, allowedKV = Some ?a\<rparr>"
  from n obtain l' st2 where 1: "apply_options opts ?l ?st1 = Some (l', st2)"
    and 2: "st' = st2\<lparr>filters := filters st2 @ [l'\<lparr>initiallyAllowed := allowed l'\<rparr>]\<rparr>"
    by (auto simp add: NewFilter_def Let_def alloc_filter_def split: option.splits)
  have "nodes_ok (tables ?st1) (filters ?st1)"
    using wf by (auto simp add: wf_state_def nodes_ok_def valid_ptr_def list_all_iff
        split: option.splits)
  with wf have wf1: "wf_state ?st1" by (simp add: wf_state_def)
  from apply_options_shape [OF 1] have k: "allowedKV l' = Some ?a" and sh: "same_shape ?st1 st2"
    by simp_all
  from wf1 sh have wf2: "wf_state st2" by (rule wf_state_same_shape)
  from sh have "length (tables st2) = Suc ?a" "cl_allowedKV st2 = Some ?a"
    by (simp_all add: same_shape_def)
  then have "valid_ptr (length (tables st2)) (allowedKV (l'\<lparr>initiallyAllowed := allowed l'\<rparr>))"
    "cl_allowedKV st2 \<noteq> None"
    using k by (simp_all add: valid_ptr_def)
  with wf2 show ?thesis unfolding 2 by (rule wf_state_alloc)
qed

lemma wf_state_backend_events:
  "wf_state st \<Longrightarrow> wf_state (st\<lparr>backend_events := es\<rparr>)"
  by (auto simp add: wf_state_def split: option.splits)

text \<open>Every state of the program is well-formed.\<close>

theorem reachable_wf_state: "reachable st \<Longrightarrow> wf_state st"
proof (induction rule: reachable.induct)
  case reachable_init
  show ?case by (rule wf_init_state)
next
  case (reachable_NewFilter st nxt opts r st')
  then show ?case by (blast intro: wf_state_NewFilter)
next
  case (reachable_With st p keyvals r st')
  then show ?case by (blast intro: wf_state_With)
next
  case (reachable_update st d opts st')
  then show ?case by (blast intro: wf_state_same_shape update_shape)
next
  case (reachable_Debug st p msg keyvals st')
  then show ?case
    by (auto simp add: Debug_def Let_def wf_state_backend_events split: if_splits)
next
  case (reachable_Info st p msg keyvals st')
  then show ?case
    by (auto simp add: Info_def Let_def wf_state_backend_events split: if_splits)
next
  case (reachable_Error st p msg keyvals st')
  then show ?case
    by (auto simp add: Error_def Let_def wf_state_backend_events split: if_splits)
qed


lemma reachable_st_root: "reachable st_root"
  using reachable_init NewFilter_st_root by (rule reachable_NewFilter)

lemma reachable_st_info: "reachable st_info"
  using reachable_init NewFilter_st_info by (rule reachable_NewFilter)

lemma reachable_st_crypto: "reachable st_crypto"
  using reachable_init NewFilter_st_crypto by (rule reachable_NewFilter)

lemma reachable_st_child: "reachable st_child"
  using reachable_st_root With_st_child by (rule reachable_With)

lemma reachable_st_test3: "reachable st_test3"
  using reachable_st_root With_st_test3 by (rule reachable_With)

lemma reachable_st_test3_debug: "reachable st_test3_debug"
proof -
  have "update st_test3 None [AllowDebugWith (Str ''module'') (Str ''test3'')]
      = Some st_test3_debug"
    by (simp add: eval_defs st_test3_def st_test3_debug_def)
  with reachable_st_test3 show ?thesis by (rule reachable_update)
qed

lemma reachable_st_two_roots: "reachable st_two_roots"
  using reachable_st_test3 NewFilter_st_two_roots by (rule reachable_NewFilter)

subsection \<open>The order of iteration over the Go maps\<close>

lemma first_exact_map_of:
  "map_of d = map_of d' \<Longrightarrow> first_exact d ps = first_exact d' ps"
  by (induction ps) (auto split: option.splits)

lemma key_known_set: "set d = set d' \<Longrightarrow> key_known d k = key_known d' k"
  by (simp add: key_known_def)

text \<open>
  Two lists of the same entries, one per key, are two orders of iteration over
  one table. The scans of \<^verbatim>\<open>With\<close> and of \<^verbatim>\<open>UpdateWith\<close> give the same result on
  both.
\<close>

lemma With_loop_order:
  assumes "distinct (map fst d)" and "distinct (map fst d')" and "set d = set d'"
  shows "With_loop (Some d) l keyvals (int (length keyvals) - 2) False
       = With_loop (Some d') l keyvals (int (length keyvals) - 2) False"
proof -
  from assms have "map_of d = map_of d'" by (simp add: map_of_inject_set)
  then have "first_exact d (pairs_backward keyvals) = first_exact d' (pairs_backward keyvals)"
    by (rule first_exact_map_of)
  then show ?thesis
    by (simp add: With_loop_all key_known_set [OF assms(3)] split: option.splits)
qed

lemma UpdateWith_loop_order:
  assumes "distinct (map fst d)" and "distinct (map fst d')" and "set d = set d'"
  shows "UpdateWith_loop (Some d) keyvals (int (length keyvals) - 2) (False, l)
       = UpdateWith_loop (Some d') keyvals (int (length keyvals) - 2) (False, l)"
proof -
  let ?ps = "pairs_backward (map Str keyvals)"
  from assms have "map_of d = map_of d'" by (simp add: map_of_inject_set)
  then have f: "first_exact d ?ps = first_exact d' ?ps" by (rule first_exact_map_of)
  have w: "UpdateWith_loop (Some x) keyvals (int (length keyvals) - 2) (False, l) =
     Some (case first_exact x ?ps of
             Some lv \<Rightarrow> (True, True, l\<lparr>allowed := lv\<rparr>)
           | None \<Rightarrow> (False, False \<or> (\<exists>kv \<in> set ?ps. key_known x (fst kv)), l))" for x
    by (rule UpdateWith_loop_pairs) (simp_all add: pairs_backward_def)
  show ?thesis
    by (simp add: w f key_known_set [OF assms(3)] split: option.splits)
qed

text \<open>
  Likewise for the loop of \<^verbatim>\<open>update\<close> over the cache, when every node has one
  entry: the nodes it leaves are the same for every order of the entries.
\<close>

lemma fold_node_step_order:
  assumes "distinct (map snd es)" and "distinct (map snd es')" and "set es = set es'"
  shows "fold (node_step T d) es fs = fold (node_step T d) es' fs"
proof (rule nth_equalityI)
  show "length (fold (node_step T d) es fs) = length (fold (node_step T d) es' fs)" by simp
  fix q assume "q < length (fold (node_step T d) es fs)"
  then have q: "q < length fs" by simp
  show "fold (node_step T d) es fs ! q = fold (node_step T d) es' fs ! q"
  proof (cases "FilterPtr q \<in> snd ` set es")
    case True
    then obtain k where k: "(k, FilterPtr q) \<in> set es" by force
    with assms(3) have k': "(k, FilterPtr q) \<in> set es'" by simp
    from fold_node_step_nth [OF assms(1) k q] fold_node_step_nth [OF assms(2) k' q]
    show ?thesis by simp
  next
    case False
    with assms(3) have "FilterPtr q \<notin> snd ` set es'" by simp
    with False show ?thesis by (simp add: fold_node_step_other)
  qed
qed

end
